theory Spec2Isabelle
  imports Complex_Main "HOL-Library.Word" "HOL-Library.List_Lexorder"
begin

unbundle bit_operations_syntax

section \<open>JavaScript strings and bytes\<close>

text \<open>
  A JavaScript string is a sequence of 16-bit UTF-16 code units (\<open>charCodeAt\<close> reads one).
  \<open>str\<close> writes an ASCII literal as such a sequence.
\<close>

type_synonym jsstring = "16 word list"

definition str :: "string \<Rightarrow> jsstring" where
  "str s = map (\<lambda>c. of_nat (of_char c)) s"

section \<open>The hasher: 64-bit values as pairs of 32-bit values\<close>

text \<open>
  The source keeps a 64-bit value as a two-element array \<open>[m[0], m[1]]\<close> of 32-bit values,
  \<open>m[0]\<close> the high half. Every function of the source mutates its first argument; the
  model returns the new pair. No call of the source passes the same array twice.
\<close>

type_synonym x64 = "32 word \<times> 32 word"

text \<open>
  JavaScript's shifts take the count modulo 32. An integer-valued Number is an \<open>int\<close>
  (every Number below stays under \<open>2 ^ 53\<close>, where the source's doubles are exact);
  \<open>x >>> 16\<close> and \<open>x & 0xffff\<close> first reduce it modulo \<open>2 ^ 32\<close>.
\<close>

definition js_shl :: "32 word \<Rightarrow> nat \<Rightarrow> 32 word" where
  "js_shl x n = push_bit (n mod 32) x"

definition js_ushr :: "32 word \<Rightarrow> nat \<Rightarrow> 32 word" where
  "js_ushr x n = drop_bit (n mod 32) x"

definition num_ushr16 :: "int \<Rightarrow> int" where
  "num_ushr16 x = (x mod 2 ^ 32) div 2 ^ 16"

definition num_and_ffff :: "int \<Rightarrow> int" where
  "num_and_ffff x = (x mod 2 ^ 32) mod 2 ^ 16"

text \<open>\<open>(hi << 16) | lo\<close> on two Numbers.\<close>

definition num_pack :: "int \<Rightarrow> int \<Rightarrow> 32 word" where
  "num_pack hi lo = push_bit 16 (word_of_int hi) OR word_of_int lo"

definition x64Add :: "x64 \<Rightarrow> x64 \<Rightarrow> x64" where
  "x64Add m n =
    (let m0 = uint (js_ushr (fst m) 16); m1 = uint (fst m AND 0xffff);
         m2 = uint (js_ushr (snd m) 16); m3 = uint (snd m AND 0xffff);
         n0 = uint (js_ushr (fst n) 16); n1 = uint (fst n AND 0xffff);
         n2 = uint (js_ushr (snd n) 16); n3 = uint (snd n AND 0xffff);
         o3 = m3 + n3;
         o2 = num_ushr16 o3;
         o3 = num_and_ffff o3;
         o2 = o2 + (m2 + n2);
         o1 = num_ushr16 o2;
         o2 = num_and_ffff o2;
         o1 = o1 + (m1 + n1);
         o0 = num_ushr16 o1;
         o1 = num_and_ffff o1;
         o0 = o0 + (m0 + n0);
         o0 = num_and_ffff o0
     in (num_pack o0 o1, num_pack o2 o3))"

definition x64Multiply :: "x64 \<Rightarrow> x64 \<Rightarrow> x64" where
  "x64Multiply m n =
    (let m0 = uint (js_ushr (fst m) 16); m1 = uint (fst m AND 0xffff);
         m2 = uint (js_ushr (snd m) 16); m3 = uint (snd m AND 0xffff);
         n0 = uint (js_ushr (fst n) 16); n1 = uint (fst n AND 0xffff);
         n2 = uint (js_ushr (snd n) 16); n3 = uint (snd n AND 0xffff);
         o3 = m3 * n3;
         o2 = num_ushr16 o3;
         o3 = num_and_ffff o3;
         o2 = o2 + m2 * n3;
         o1 = num_ushr16 o2;
         o2 = num_and_ffff o2;
         o2 = o2 + m3 * n2;
         o1 = o1 + num_ushr16 o2;
         o2 = num_and_ffff o2;
         o1 = o1 + m1 * n3;
         o0 = num_ushr16 o1;
         o1 = num_and_ffff o1;
         o1 = o1 + m2 * n2;
         o0 = o0 + num_ushr16 o1;
         o1 = num_and_ffff o1;
         o1 = o1 + m3 * n1;
         o0 = o0 + num_ushr16 o1;
         o1 = num_and_ffff o1;
         o0 = o0 + (m0 * n3 + m1 * n2 + m2 * n1 + m3 * n0);
         o0 = num_and_ffff o0
     in (num_pack o0 o1, num_pack o2 o3))"

definition x64Rotl :: "x64 \<Rightarrow> nat \<Rightarrow> x64" where
  "x64Rotl m bits0 =
    (let m0 = fst m; bits = bits0 mod 64
     in if bits = 32 then (snd m, m0)
        else if bits < 32 then
          (js_shl m0 bits OR js_ushr (snd m) (32 - bits),
           js_shl (snd m) bits OR js_ushr m0 (32 - bits))
        else
          (let bits = bits - 32
           in (js_shl (snd m) bits OR js_ushr m0 (32 - bits),
               js_shl m0 bits OR js_ushr (snd m) (32 - bits))))"

definition x64LeftShift :: "x64 \<Rightarrow> nat \<Rightarrow> x64" where
  "x64LeftShift m bits0 =
    (let bits = bits0 mod 64
     in if bits = 0 then m
        else if bits < 32 then (js_ushr (snd m) (32 - bits), js_shl (snd m) bits)
        else (js_shl (snd m) (bits - 32), 0))"

definition x64Xor :: "x64 \<Rightarrow> x64 \<Rightarrow> x64" where
  "x64Xor m n = (fst m XOR fst n, snd m XOR snd n)"

definition F1 :: x64 where "F1 = (0xff51afd7, 0xed558ccd)"
definition F2 :: x64 where "F2 = (0xc4ceb9fe, 0x1a85ec53)"

definition x64Fmix :: "x64 \<Rightarrow> x64" where
  "x64Fmix h0 =
    (let shifted = (0, js_ushr (fst h0) 1);
         h = x64Xor h0 shifted;
         h = x64Multiply h F1;
         shifted = (fst shifted, js_ushr (fst h) 1);
         h = x64Xor h shifted;
         h = x64Multiply h F2;
         shifted = (fst shifted, js_ushr (fst h) 1);
         h = x64Xor h shifted
     in h)"

definition C1 :: x64 where "C1 = (0x87c37b91, 0x114253d5)"
definition C2 :: x64 where "C2 = (0x4cf5ad43, 0x2745937f)"
definition M1 :: x64 where "M1 = (0, 5)"
definition N1 :: x64 where "N1 = (0, 0x52dce729)"
definition N2 :: x64 where "N2 = (0, 0x38495ab5)"


subsection \<open>UTF-8 bytes of a string\<close>

text \<open>
  \<open>TextEncoder\<close> is a builtin of the host, not code of the repository. Modelled from the
  Encoding standard: the code units are read as UTF-16, every unpaired surrogate becomes
  U+FFFD, and each code point is written in one to four UTF-8 bytes.
\<close>

definition is_high_surrogate :: "16 word \<Rightarrow> bool" where
  "is_high_surrogate c = (0xD800 \<le> c \<and> c \<le> 0xDBFF)"

definition is_low_surrogate :: "16 word \<Rightarrow> bool" where
  "is_low_surrogate c = (0xDC00 \<le> c \<and> c \<le> 0xDFFF)"

fun code_points :: "jsstring \<Rightarrow> nat list" where
  "code_points [] = []"
| "code_points [c] =
     (if is_high_surrogate c \<or> is_low_surrogate c then [0xFFFD] else [unat c])"
| "code_points (c # d # cs) =
     (if is_high_surrogate c then
        (if is_low_surrogate d
         then (0x10000 + (unat c - 0xD800) * 0x400 + (unat d - 0xDC00)) # code_points cs
         else 0xFFFD # code_points (d # cs))
      else if is_low_surrogate c then 0xFFFD # code_points (d # cs)
      else unat c # code_points (d # cs))"

definition utf8_of_code_point :: "nat \<Rightarrow> 8 word list" where
  "utf8_of_code_point cp =
    (if cp < 0x80 then [of_nat cp]
     else if cp < 0x800 then [of_nat (0xC0 + cp div 0x40), of_nat (0x80 + cp mod 0x40)]
     else if cp < 0x10000 then
       [of_nat (0xE0 + cp div 0x1000), of_nat (0x80 + cp div 0x40 mod 0x40),
        of_nat (0x80 + cp mod 0x40)]
     else
       [of_nat (0xF0 + cp div 0x40000), of_nat (0x80 + cp div 0x1000 mod 0x40),
        of_nat (0x80 + cp div 0x40 mod 0x40), of_nat (0x80 + cp mod 0x40)])"

definition TextEncoder_encode :: "jsstring \<Rightarrow> 8 word list" where
  "TextEncoder_encode input = concat (map utf8_of_code_point (code_points input))"

text \<open>
  \<open>getUTF8Bytes\<close>: the loop copies code units while they are ASCII and hands the whole
  string to \<open>TextEncoder\<close> at the first one that is not. \<open>result\<close> is the
  \<open>Uint8Array(input.length)\<close>, zero-filled.
\<close>

function getUTF8Bytes_loop :: "jsstring \<Rightarrow> nat \<Rightarrow> 8 word list \<Rightarrow> 8 word list" where
  "getUTF8Bytes_loop input i result =
    (if i < length input then
       (let charCode = input ! i
        in if charCode > 127 then TextEncoder_encode input
           else getUTF8Bytes_loop input (i + 1) (result[i := ucast charCode]))
     else result)"
  by pat_completeness auto
termination
  by (relation "measure (\<lambda>(input, i, result). length input - i)") auto

definition getUTF8Bytes :: "jsstring \<Rightarrow> 8 word list" where
  "getUTF8Bytes input = getUTF8Bytes_loop input 0 (replicate (length input) 0)"

subsection \<open>x64hash128\<close>

text \<open>
  \<open>key[i]\<close> used as an operand of \<open>|\<close> or stored in \<open>val[1]\<close>: the byte as a 32-bit value.
  Outside the array JavaScript reads \<open>undefined\<close>, which the bitwise operators take as 0;
  the source never reads there.
\<close>

definition byteAt :: "8 word list \<Rightarrow> nat \<Rightarrow> 32 word" where
  "byteAt key i = (if i < length key then ucast (key ! i) else 0)"

definition read32 :: "8 word list \<Rightarrow> nat \<Rightarrow> 32 word" where
  "read32 key i =
     byteAt key i OR js_shl (byteAt key (i + 1)) 8 OR js_shl (byteAt key (i + 2)) 16
       OR js_shl (byteAt key (i + 3)) 24"

text \<open>The block loop: \<open>for (i = 0; i < bytes; i = i + 16)\<close>. It returns \<open>i\<close> too, which the tail reads.\<close>

function block_loop :: "8 word list \<Rightarrow> nat \<Rightarrow> nat \<Rightarrow> x64 \<Rightarrow> x64 \<Rightarrow> nat \<times> x64 \<times> x64" where
  "block_loop key bytes i h1 h2 =
    (if i < bytes then
       (let k1 = (read32 key (i + 4), read32 key i);
            k2 = (read32 key (i + 12), read32 key (i + 8));
            k1 = x64Multiply k1 C1;
            k1 = x64Rotl k1 31;
            k1 = x64Multiply k1 C2;
            h1 = x64Xor h1 k1;
            h1 = x64Rotl h1 27;
            h1 = x64Add h1 h2;
            h1 = x64Multiply h1 M1;
            h1 = x64Add h1 N1;
            k2 = x64Multiply k2 C2;
            k2 = x64Rotl k2 33;
            k2 = x64Multiply k2 C1;
            h2 = x64Xor h2 k2;
            h2 = x64Rotl h2 31;
            h2 = x64Add h2 h1;
            h2 = x64Multiply h2 M1;
            h2 = x64Add h2 N2
        in block_loop key bytes (i + 16) h1 h2)
     else (i, h1, h2))"
  by pat_completeness auto
termination
  by (relation "measure (\<lambda>(key, bytes, i, h1, h2). bytes - i)") auto

record hstate =
  sh1 :: x64
  sh2 :: x64
  sk1 :: x64
  sk2 :: x64
  sval :: x64

text \<open>
  The three lines every shifted case of the switch repeats:
  \<open>val[1] = key[j]; x64LeftShift(val, bits); x64Xor(k, val)\<close>, for \<open>k2\<close> and for \<open>k1\<close>.
  \<open>val[0]\<close> keeps what the case before left there.
\<close>

definition shift_into_k2 :: "8 word list \<Rightarrow> nat \<Rightarrow> nat \<Rightarrow> hstate \<Rightarrow> hstate" where
  "shift_into_k2 key j bits s =
    (let v = (fst (sval s), byteAt key j);
         v = x64LeftShift v bits
     in s\<lparr>sval := v, sk2 := x64Xor (sk2 s) v\<rparr>)"

definition shift_into_k1 :: "8 word list \<Rightarrow> nat \<Rightarrow> nat \<Rightarrow> hstate \<Rightarrow> hstate" where
  "shift_into_k1 key j bits s =
    (let v = (fst (sval s), byteAt key j);
         v = x64LeftShift v bits
     in s\<lparr>sval := v, sk1 := x64Xor (sk1 s) v\<rparr>)"

text \<open>Cases 9 and 1 do not shift, and mix the finished \<open>k2\<close> (\<open>k1\<close>) into \<open>h2\<close> (\<open>h1\<close>).\<close>

definition case9 :: "8 word list \<Rightarrow> nat \<Rightarrow> hstate \<Rightarrow> hstate" where
  "case9 key i s =
    (let v = (fst (sval s), byteAt key (i + 8));
         k2 = x64Xor (sk2 s) v;
         k2 = x64Multiply k2 C2;
         k2 = x64Rotl k2 33;
         k2 = x64Multiply k2 C1
     in s\<lparr>sval := v, sk2 := k2, sh2 := x64Xor (sh2 s) k2\<rparr>)"

definition case1 :: "8 word list \<Rightarrow> nat \<Rightarrow> hstate \<Rightarrow> hstate" where
  "case1 key i s =
    (let v = (fst (sval s), byteAt key i);
         k1 = x64Xor (sk1 s) v;
         k1 = x64Multiply k1 C1;
         k1 = x64Rotl k1 31;
         k1 = x64Multiply k1 C2
     in s\<lparr>sval := v, sk1 := k1, sh1 := x64Xor (sh1 s) k1\<rparr>)"

text \<open>
  \<open>switch (remainder)\<close> with every case falling through to the next: the case labelled
  \<open>c\<close> runs exactly when \<open>c \<le> remainder\<close>.
\<close>

definition tail_switch :: "8 word list \<Rightarrow> nat \<Rightarrow> nat \<Rightarrow> hstate \<Rightarrow> hstate" where
  "tail_switch key i remainder s =
    (let s = (if 15 \<le> remainder then shift_into_k2 key (i + 14) 48 s else s);
         s = (if 14 \<le> remainder then shift_into_k2 key (i + 13) 40 s else s);
         s = (if 13 \<le> remainder then shift_into_k2 key (i + 12) 32 s else s);
         s = (if 12 \<le> remainder then shift_into_k2 key (i + 11) 24 s else s);
         s = (if 11 \<le> remainder then shift_into_k2 key (i + 10) 16 s else s);
         s = (if 10 \<le> remainder then shift_into_k2 key (i + 9) 8 s else s);
         s = (if 9 \<le> remainder then case9 key i s else s);
         s = (if 8 \<le> remainder then shift_into_k1 key (i + 7) 56 s else s);
         s = (if 7 \<le> remainder then shift_into_k1 key (i + 6) 48 s else s);
         s = (if 6 \<le> remainder then shift_into_k1 key (i + 5) 40 s else s);
         s = (if 5 \<le> remainder then shift_into_k1 key (i + 4) 32 s else s);
         s = (if 4 \<le> remainder then shift_into_k1 key (i + 3) 24 s else s);
         s = (if 3 \<le> remainder then shift_into_k1 key (i + 2) 16 s else s);
         s = (if 2 \<le> remainder then shift_into_k1 key (i + 1) 8 s else s);
         s = (if 1 \<le> remainder then case1 key i s else s)
     in s)"

text \<open>
  \<open>n.toString(16)\<close> of a non-negative integer (the source applies it to \<open>x >>> 0\<close>,
  the unsigned reading of a 32-bit value), and \<open>s.slice(-8)\<close>.
\<close>

definition hex_digit :: "int \<Rightarrow> 16 word" where
  "hex_digit d = (if d < 10 then of_int (48 + d) else of_int (87 + d))"

function toString16 :: "int \<Rightarrow> jsstring" where
  "toString16 n = (if n < 16 then [hex_digit n] else toString16 (n div 16) @ [hex_digit (n mod 16)])"
  by pat_completeness auto
termination
  by (relation "measure nat") auto

definition slice_last8 :: "jsstring \<Rightarrow> jsstring" where
  "slice_last8 s = drop (length s - 8) s"

definition hex8 :: "32 word \<Rightarrow> jsstring" where
  "hex8 w = slice_last8 (str ''00000000'' @ toString16 (uint w))"

text \<open>
  \<open>seed = seed || 0\<close>: a missing seed and the seed 0 are both 0. \<open>length\<close> is
  \<open>[0, key.length]\<close>; \<open>x64Xor\<close> reads its second half as a 32-bit value.
\<close>

definition x64hash128 :: "jsstring \<Rightarrow> 32 word option \<Rightarrow> jsstring" where
  "x64hash128 input seed0 =
    (let key = getUTF8Bytes input;
         seed = (case seed0 of None \<Rightarrow> 0 | Some s \<Rightarrow> s);
         len = (0, word_of_nat (length key));
         remainder = length key mod 16;
         bytes = length key - remainder;
         (i, h1, h2) = block_loop key bytes 0 (0, seed) (0, seed);
         s = tail_switch key i remainder
               \<lparr>sh1 = h1, sh2 = h2, sk1 = (0, 0), sk2 = (0, 0), sval = (0, 0)\<rparr>;
         h1 = x64Xor (sh1 s) len;
         h2 = x64Xor (sh2 s) len;
         h1 = x64Add h1 h2;
         h2 = x64Add h2 h1;
         h1 = x64Fmix h1;
         h2 = x64Fmix h2;
         h1 = x64Add h1 h2;
         h2 = x64Add h2 h1
     in hex8 (fst h1) @ hex8 (snd h1) @ hex8 (fst h2) @ hex8 (snd h2))"


section \<open>The reference MurmurHash3 x64-128\<close>

text \<open>
  The reference algorithm as the specification describes it, on native 64-bit words: blocks of
  16 bytes read as two little-endian 64-bit lanes, the tail of up to 15 bytes read the same way
  with the missing bytes zero, the length mixed in, and \<open>fmix64\<close> on each lane.
\<close>

definition ROTL64 :: "64 word \<Rightarrow> nat \<Rightarrow> 64 word" where
  "ROTL64 x r = push_bit r x OR drop_bit (64 - r) x"

definition fmix64 :: "64 word \<Rightarrow> 64 word" where
  "fmix64 k0 =
    (let k = k0 XOR drop_bit 33 k0;
         k = k * 0xff51afd7ed558ccd;
         k = k XOR drop_bit 33 k;
         k = k * 0xc4ceb9fe1a85ec53;
         k = k XOR drop_bit 33 k
     in k)"

definition ref_c1 :: "64 word" where "ref_c1 = 0x87c37b91114253d5"
definition ref_c2 :: "64 word" where "ref_c2 = 0x4cf5ad432745937f"

text \<open>Little-endian value of at most eight bytes.\<close>

fun le64 :: "8 word list \<Rightarrow> 64 word" where
  "le64 [] = 0"
| "le64 (b # bs) = ucast b OR push_bit 8 (le64 bs)"

definition ref_mix_k1 :: "64 word \<Rightarrow> 64 word" where
  "ref_mix_k1 k = ROTL64 (k * ref_c1) 31 * ref_c2"

definition ref_mix_k2 :: "64 word \<Rightarrow> 64 word" where
  "ref_mix_k2 k = ROTL64 (k * ref_c2) 33 * ref_c1"

definition ref_block :: "8 word list \<Rightarrow> 64 word \<times> 64 word \<Rightarrow> 64 word \<times> 64 word" where
  "ref_block blk h =
    (let h1 = fst h XOR ref_mix_k1 (le64 (take 8 blk));
         h1 = ROTL64 h1 27;
         h1 = h1 + snd h;
         h1 = h1 * 5 + 0x52dce729;
         h2 = snd h XOR ref_mix_k2 (le64 (drop 8 blk));
         h2 = ROTL64 h2 31;
         h2 = h2 + h1;
         h2 = h2 * 5 + 0x38495ab5
     in (h1, h2))"

function ref_body :: "8 word list \<Rightarrow> 64 word \<times> 64 word \<Rightarrow> (64 word \<times> 64 word) \<times> 8 word list" where
  "ref_body data h =
    (if 16 \<le> length data then ref_body (drop 16 data) (ref_block (take 16 data) h)
     else (h, data))"
  by pat_completeness auto
termination
  by (relation "measure (\<lambda>(data, h). length data)") auto

definition ref_tail :: "8 word list \<Rightarrow> 64 word \<times> 64 word \<Rightarrow> 64 word \<times> 64 word" where
  "ref_tail rest h =
    (let h2 = (if 8 < length rest then snd h XOR ref_mix_k2 (le64 (drop 8 rest)) else snd h);
         h1 = (if 0 < length rest then fst h XOR ref_mix_k1 (le64 (take 8 rest)) else fst h)
     in (h1, h2))"

definition MurmurHash3_x64_128 :: "8 word list \<Rightarrow> 32 word \<Rightarrow> 64 word \<times> 64 word" where
  "MurmurHash3_x64_128 data seed =
    (let (h, rest) = ref_body data (ucast seed, ucast seed);
         (h1, h2) = ref_tail rest h;
         h1 = h1 XOR word_of_nat (length data);
         h2 = h2 XOR word_of_nat (length data);
         h1 = h1 + h2;
         h2 = h2 + h1;
         h1 = fmix64 h1;
         h2 = fmix64 h2;
         h1 = h1 + h2;
         h2 = h2 + h1
     in (h1, h2))"

text \<open>A 64-bit word as 16 lowercase hexadecimal digits, most significant first.\<close>

definition lower_hex_char :: "nat \<Rightarrow> 16 word" where
  "lower_hex_char d = str ''0123456789abcdef'' ! d"

definition hex64 :: "64 word \<Rightarrow> jsstring" where
  "hex64 w = map (\<lambda>i. lower_hex_char (unat (drop_bit (4 * (15 - i)) w AND 0xf))) [0..<16]"

definition hex128 :: "64 word \<times> 64 word \<Rightarrow> jsstring" where
  "hex128 h = hex64 (fst h) @ hex64 (snd h)"

definition is_lower_hex :: "16 word \<Rightarrow> bool" where
  "is_lower_hex c = (c \<in> set (str ''0123456789abcdef''))"


section \<open>Components and the canonical string\<close>

text \<open>
  A component is the object \<open>{value, duration}\<close> or \<open>{error, duration}\<close>. A key that the
  object does not have is \<open>None\<close>, so \<open>'error' in component\<close> is \<open>error_opt component \<noteq> None\<close>.
  A component set is an object: its own keys in order (no key twice), each with its component.
\<close>

record ('v, 'e) component =
  value_opt :: "'v option"
  error_opt :: "'e option"
  duration :: int

type_synonym ('v, 'e) components = "(jsstring \<times> ('v, 'e) component) list"

datatype js_exception = TypeError

definition Object_keys :: "(jsstring \<times> 'c) list \<Rightarrow> jsstring list" where
  "Object_keys obj = map fst obj"

text \<open>\<open>componentKey.replace(/([:|\\])/g, '\\$1')\<close>: a backslash before every colon, bar and backslash.\<close>

definition escape_key :: "jsstring \<Rightarrow> jsstring" where
  "escape_key k = concat (map (\<lambda>c. if c \<in> {0x3A, 0x7C, 0x5C} then [0x5C, c] else [c]) k)"

text \<open>
  \<open>JSON.stringify\<close> is a builtin of the host; the canonicalizer takes it as the parameter
  \<open>stringify\<close>, which is \<open>None\<close> where the builtin returns \<open>undefined\<close>. Inside the template
  literal \<open>undefined\<close> reads \<open>undefined\<close>; so does the value of a component that has no
  \<open>value\<close> key.
\<close>

definition component_text :: "('v \<Rightarrow> jsstring option) \<Rightarrow> ('v, 'e) component \<Rightarrow> jsstring" where
  "component_text stringify component =
    (if error_opt component \<noteq> None then str ''error''
     else (case value_opt component of
             None \<Rightarrow> str ''undefined''
           | Some v \<Rightarrow> (case stringify v of None \<Rightarrow> str ''undefined'' | Some s \<Rightarrow> s)))"

text \<open>
  The loop over the sorted keys. \<open>components[componentKey]\<close> of a key the object does not
  have is \<open>undefined\<close>, and \<open>'error' in undefined\<close> throws a TypeError.
\<close>

fun canonical_loop ::
  "('v \<Rightarrow> jsstring option) \<Rightarrow> ('v, 'e) components \<Rightarrow> jsstring list \<Rightarrow> jsstring
     \<Rightarrow> js_exception + jsstring" where
  "canonical_loop stringify components [] result = Inr result"
| "canonical_loop stringify components (componentKey # keys) result =
    (case map_of components componentKey of
       None \<Rightarrow> Inl TypeError
     | Some component \<Rightarrow>
         canonical_loop stringify components keys
           (result @ (if result \<noteq> [] then str ''|'' else []) @ escape_key componentKey
              @ str '':'' @ component_text stringify component))"

definition componentsToCanonicalString ::
  "('v \<Rightarrow> jsstring option) \<Rightarrow> ('v, 'e) components \<Rightarrow> js_exception + jsstring" where
  "componentsToCanonicalString stringify components =
     canonical_loop stringify components (sort (Object_keys components)) []"

definition hashComponents ::
  "('v \<Rightarrow> jsstring option) \<Rightarrow> ('v, 'e) components \<Rightarrow> js_exception + jsstring" where
  "hashComponents stringify components =
    (case componentsToCanonicalString stringify components of
       Inl e \<Rightarrow> Inl e
     | Inr s \<Rightarrow> Inr (x64hash128 s None))"

subsection \<open>JSON.stringify\<close>

text \<open>
  Modelled from the ECMAScript specification of the builtin \<open>JSON.stringify\<close>, for the
  values the examples below use: \<open>undefined\<close>, \<open>null\<close>, booleans, integer-valued Numbers
  below \<open>10 ^ 21\<close> in magnitude (printed in plain decimal), strings, arrays and plain objects.
  Numbers with a fraction are outside this model. The general theorems take \<open>stringify\<close> as
  a parameter and do not depend on it.
\<close>

datatype jsvalue =
    JUndefined
  | JNull
  | JBool bool
  | JInt int
  | JString jsstring
  | JArray "jsvalue list"
  | JObject "(jsstring \<times> jsvalue) list"

function decimal_digits :: "int \<Rightarrow> jsstring" where
  "decimal_digits n =
    (if n < 10 then [of_int (48 + n)] else decimal_digits (n div 10) @ [of_int (48 + n mod 10)])"
  by pat_completeness auto
termination
  by (relation "measure nat") auto

definition Number_toString :: "int \<Rightarrow> jsstring" where
  "Number_toString n = (if n < 0 then 0x2D # decimal_digits (- n) else decimal_digits n)"

text \<open>\<open>\uXXXX\<close> with four lowercase hexadecimal digits.\<close>

definition unicode_escape :: "16 word \<Rightarrow> jsstring" where
  "unicode_escape c =
    [0x5C, 0x75, hex_digit (uint c div 4096), hex_digit (uint c div 256 mod 16),
     hex_digit (uint c div 16 mod 16), hex_digit (uint c mod 16)]"

definition quote_unit :: "16 word \<Rightarrow> jsstring" where
  "quote_unit c =
    (if c = 0x08 then [0x5C, 0x62]
     else if c = 0x09 then [0x5C, 0x74]
     else if c = 0x0A then [0x5C, 0x6E]
     else if c = 0x0C then [0x5C, 0x66]
     else if c = 0x0D then [0x5C, 0x72]
     else if c = 0x22 then [0x5C, 0x22]
     else if c = 0x5C then [0x5C, 0x5C]
     else if c < 0x20 then unicode_escape c
     else [c])"

fun quote_units :: "jsstring \<Rightarrow> jsstring" where
  "quote_units [] = []"
| "quote_units [c] =
     (if is_high_surrogate c \<or> is_low_surrogate c then unicode_escape c else quote_unit c)"
| "quote_units (c # d # cs) =
     (if is_high_surrogate c then
        (if is_low_surrogate d then c # d # quote_units cs
         else unicode_escape c @ quote_units (d # cs))
      else if is_low_surrogate c then unicode_escape c @ quote_units (d # cs)
      else quote_unit c @ quote_units (d # cs))"

definition QuoteJSONString :: "jsstring \<Rightarrow> jsstring" where
  "QuoteJSONString s = 0x22 # quote_units s @ [0x22]"

text \<open>\<open>Array.prototype.join\<close> on strings.\<close>

fun join :: "jsstring \<Rightarrow> jsstring list \<Rightarrow> jsstring" where
  "join sep [] = []"
| "join sep [x] = x"
| "join sep (x # y # ys) = x @ sep @ join sep (y # ys)"

text \<open>
  An array element that serializes to \<open>undefined\<close> is written \<open>null\<close>; an object property
  that does is left out.
\<close>

fun JSON_stringify :: "jsvalue \<Rightarrow> jsstring option"
  and JSON_elements :: "jsvalue list \<Rightarrow> jsstring list"
  and JSON_properties :: "(jsstring \<times> jsvalue) list \<Rightarrow> jsstring list" where
  "JSON_stringify JUndefined = None"
| "JSON_stringify JNull = Some (str ''null'')"
| "JSON_stringify (JBool b) = Some (if b then str ''true'' else str ''false'')"
| "JSON_stringify (JInt n) = Some (Number_toString n)"
| "JSON_stringify (JString s) = Some (QuoteJSONString s)"
| "JSON_stringify (JArray xs) = Some (str ''['' @ join (str '','') (JSON_elements xs) @ str '']'')"
| "JSON_stringify (JObject ps) = Some (str ''{'' @ join (str '','') (JSON_properties ps) @ str ''}'')"
| "JSON_elements [] = []"
| "JSON_elements (x # xs) =
     (case JSON_stringify x of None \<Rightarrow> str ''null'' | Some s \<Rightarrow> s) # JSON_elements xs"
| "JSON_properties [] = []"
| "JSON_properties (p # ps) =
     (case JSON_stringify (snd p) of
        None \<Rightarrow> JSON_properties ps
      | Some s \<Rightarrow> (QuoteJSONString (fst p) @ str '':'' @ s) # JSON_properties ps)"

text \<open>A component holding a value, and one holding an error, as \<open>loadSource\<close> builds them.\<close>

definition value_component :: "'v \<Rightarrow> int \<Rightarrow> ('v, 'e) component" where
  "value_component v d = \<lparr>value_opt = Some v, error_opt = None, duration = d\<rparr>"

definition error_component :: "'e \<Rightarrow> int \<Rightarrow> ('v, 'e) component" where
  "error_component e d = \<lparr>value_opt = None, error_opt = Some e, duration = d\<rparr>"

subsection \<open>Reading a canonical string\<close>



text \<open>
  One record of the canonical string, from an entry of the component set: the escaped name,
  a colon, the text of the component.
\<close>

definition record_text ::
  "('v \<Rightarrow> jsstring option) \<Rightarrow> jsstring \<times> ('v, 'e) component \<Rightarrow> jsstring" where
  "record_text stringify p = escape_key (fst p) @ str '':'' @ component_text stringify (snd p)"

text \<open>
  Two components that differ at most in their durations and, when both hold an error, in the
  error they hold.
\<close>

definition same_outcome :: "('v, 'e) component \<Rightarrow> ('v, 'e) component \<Rightarrow> bool" where
  "same_outcome c c' =
    ((error_opt c = None) = (error_opt c' = None)
     \<and> (error_opt c = None \<longrightarrow> value_opt c = value_opt c'))"

section \<open>The batch scheduler\<close>

text \<open>
  \<open>mapWithBreaks\<close>. The callback returns a result or throws (\<open>Inl\<close>); a throw leaves the
  \<open>async\<close> function at once, its promise rejected with the exception. \<open>readings k\<close> is what
  \<open>Date.now()\<close> returns on its \<open>k\<close>-th call in this run (the first call is number 0).
  \<open>results\<close> is \<open>Array(items.length)\<close>, every slot empty (\<open>None\<close>) until it is assigned.
  \<open>yields\<close> is not in the source: it lists the indices after which the loop awaited
  \<open>releaseEventLoop()\<close>, whose promise always resolves. A missing \<open>loopReleaseInterval\<close> is 16.
\<close>

function mapWithBreaks_loop ::
  "'a list \<Rightarrow> ('a \<Rightarrow> nat \<Rightarrow> 'e + 'b) \<Rightarrow> int \<Rightarrow> (nat \<Rightarrow> int) \<Rightarrow> nat \<Rightarrow> 'b option list \<Rightarrow> int
     \<Rightarrow> nat list \<Rightarrow> 'e + ('b option list \<times> nat list)" where
  "mapWithBreaks_loop items callback loopReleaseInterval readings i results lastLoopReleaseTime yields =
    (if i < length items then
       (case callback (items ! i) i of
          Inl e \<Rightarrow> Inl e
        | Inr r \<Rightarrow>
            (let results = results[i := Some r];
                 now = readings (i + 1)
             in if now \<ge> lastLoopReleaseTime + loopReleaseInterval
                then mapWithBreaks_loop items callback loopReleaseInterval readings (i + 1)
                       results now (yields @ [i])
                else mapWithBreaks_loop items callback loopReleaseInterval readings (i + 1)
                       results lastLoopReleaseTime yields))
     else Inr (results, yields))"
  by pat_completeness auto
termination
  by (relation "measure (\<lambda>(items, callback, interval, readings, i, rest). length items - i)") auto

definition mapWithBreaks ::
  "'a list \<Rightarrow> ('a \<Rightarrow> nat \<Rightarrow> 'e + 'b) \<Rightarrow> int option \<Rightarrow> (nat \<Rightarrow> int)
     \<Rightarrow> 'e + ('b option list \<times> nat list)" where
  "mapWithBreaks items callback loopReleaseInterval readings =
     mapWithBreaks_loop items callback
       (case loopReleaseInterval of None \<Rightarrow> 16 | Some n \<Rightarrow> n) readings 0
       (replicate (length items) None) (readings 0) []"

section \<open>The confidence score\<close>

text \<open>
  What the browser detectors of the source return in the browser at hand. They read
  \<open>window\<close> and \<open>navigator\<close> only, so the model takes their results as given.
\<close>

record browser =
  isAndroid :: bool
  isWebKit :: bool
  isDesktopWebKit :: bool
  isWebKit616OrNewer :: bool
  isSafariWebKit :: bool

text \<open>\<open>/^Win/.test(platform)\<close> and \<open>/^Mac/.test(platform)\<close>: the text of \<open>platform\<close> starts so.\<close>

definition starts_with :: "jsstring \<Rightarrow> jsstring \<Rightarrow> bool" where
  "starts_with p s = (take (length p) s = p)"

text \<open>
  \<open>getOpenConfidenceScore\<close>. \<open>components.platform\<close> of a set without that key is
  \<open>undefined\<close>, and \<open>'value' in undefined\<close> throws a TypeError. \<open>ToString\<close> is the text the
  regular expression sees for a value. The scores are the decimal constants of the source.
\<close>

definition getOpenConfidenceScore ::
  "browser \<Rightarrow> ('v \<Rightarrow> jsstring) \<Rightarrow> ('v, 'e) components \<Rightarrow> js_exception + real" where
  "getOpenConfidenceScore b ToString components =
    (if isAndroid b then Inr 0.4
     else if isWebKit b then
       Inr (if isDesktopWebKit b \<and> \<not> (isWebKit616OrNewer b \<and> isSafariWebKit b) then 0.5 else 0.3)
     else
       (case map_of components (str ''platform'') of
          None \<Rightarrow> Inl TypeError
        | Some pc \<Rightarrow>
            (let platform = (case value_opt pc of Some v \<Rightarrow> ToString v | None \<Rightarrow> [])
             in if starts_with (str ''Win'') platform then Inr 0.6
                else if starts_with (str ''Mac'') platform then Inr 0.5
                else Inr 0.7)))"

text \<open>
  \<open>round(value, base)\<close> for \<open>|base| < 1\<close>, and \<open>deriveProConfidenceScore\<close>, on real numbers
  (the source computes them in floating point; only the comment text uses them). The two
  can differ where a product is not exact in floating point, as for \<open>round(1.005, 0.01)\<close>;
  no theorem below depends on the rounded number.
\<close>

definition round_to :: "real \<Rightarrow> real \<Rightarrow> real" where
  "round_to v base = (let counterBase = 1 / base in of_int (round (v * counterBase)) / counterBase)"

definition deriveProConfidenceScore :: "real \<Rightarrow> real" where
  "deriveProConfidenceScore openConfidenceScore = round_to (0.99 + 0.01 * openConfidenceScore) 0.0001"

record confidence =
  score :: real
  comment_score :: real

definition getConfidence ::
  "browser \<Rightarrow> ('v \<Rightarrow> jsstring) \<Rightarrow> ('v, 'e) components \<Rightarrow> js_exception + confidence" where
  "getConfidence b ToString components =
    (case getOpenConfidenceScore b ToString components of
       Inl e \<Rightarrow> Inl e
     | Inr openConfidenceScore \<Rightarrow>
         Inr \<lparr>score = openConfidenceScore,
              comment_score = deriveProConfidenceScore openConfidenceScore\<rparr>)"

section \<open>The lazy result\<close>

text \<open>
  The object \<open>makeLazyGetResult\<close> returns, with the variable \<open>visitorIdCache\<close> its accessors
  close over (\<open>None\<close> is \<open>undefined\<close>). \<open>hash_runs\<close> is not in the source: it counts the calls
  of \<open>hashComponents\<close> the getter has made.
\<close>

record ('v, 'e) get_result =
  visitorIdCache :: "jsstring option"
  confidence_of :: confidence
  components_of :: "('v, 'e) components"
  version_of :: jsstring
  hash_runs :: nat

definition version :: jsstring where
  "version = str ''5.0.1''"

definition makeLazyGetResult ::
  "browser \<Rightarrow> ('v \<Rightarrow> jsstring) \<Rightarrow> ('v, 'e) components \<Rightarrow> js_exception + ('v, 'e) get_result" where
  "makeLazyGetResult b ToString components =
    (case getConfidence b ToString components of
       Inl e \<Rightarrow> Inl e
     | Inr c \<Rightarrow>
         Inr \<lparr>visitorIdCache = None, confidence_of = c, components_of = components,
              version_of = version, hash_runs = 0\<rparr>)"

text \<open>The getter \<open>get visitorId()\<close>: what it returns (or throws) and the object afterwards.\<close>

definition get_visitorId ::
  "('v \<Rightarrow> jsstring option) \<Rightarrow> ('v, 'e) get_result
     \<Rightarrow> (js_exception + jsstring) \<times> ('v, 'e) get_result" where
  "get_visitorId stringify r =
    (case visitorIdCache r of
       None \<Rightarrow>
         (case hashComponents stringify (components_of r) of
            Inl e \<Rightarrow> (Inl e, r\<lparr>hash_runs := hash_runs r + 1\<rparr>)
          | Inr h \<Rightarrow> (Inr h, r\<lparr>visitorIdCache := Some h, hash_runs := hash_runs r + 1\<rparr>))
     | Some h \<Rightarrow> (Inr h, r))"

text \<open>The setter \<open>set visitorId(visitorId)\<close>.\<close>

definition set_visitorId :: "jsstring option \<Rightarrow> ('v, 'e) get_result \<Rightarrow> ('v, 'e) get_result" where
  "set_visitorId visitorId r = r\<lparr>visitorIdCache := visitorId\<rparr>"

text \<open>Reading the field \<open>n\<close> times in a row: the values read, first to last, and the object afterwards.\<close>

fun read_visitorId ::
  "('v \<Rightarrow> jsstring option) \<Rightarrow> nat \<Rightarrow> ('v, 'e) get_result
     \<Rightarrow> (js_exception + jsstring) list \<times> ('v, 'e) get_result" where
  "read_visitorId stringify 0 r = ([], r)"
| "read_visitorId stringify (Suc n) r =
    (let (x, r1) = get_visitorId stringify r;
         (xs, r2) = read_visitorId stringify n r1
     in (x # xs, r2))"

section \<open>The source loader\<close>

text \<open>
  The host at one moment. The loader reads nothing of it but the clock, \<open>Date.now()\<close>;
  whatever else a probe depends on lives in the extension of the record.
\<close>

record world =
  now :: int

text \<open>
  What calling a function of the host does, as \<open>awaitIfAsync\<close> can see it: the call returns
  a value that is not a promise, or throws, or returns a promise that is later fulfilled, or
  rejected, or never settled. The world given with each is the host at the moment the
  callback of \<open>awaitIfAsync\<close> runs: right after the call in the first two cases, when the
  promise settles in the next two. A function is what it does when called in a given world.
\<close>

datatype ('a, 'e, 'x) completion =
    Returns 'a "'x world_scheme"
  | Throws 'e "'x world_scheme"
  | Fulfils 'a "'x world_scheme"
  | Rejects 'e "'x world_scheme"
  | NeverSettles

type_synonym ('a, 'e, 'x) action = "'x world_scheme \<Rightarrow> ('a, 'e, 'x) completion"

text \<open>The arguments of the callback: \<open>(true, result)\<close> or \<open>(false, error)\<close>.\<close>

datatype ('a, 'e) callback_args = Succeeded 'a | Failed 'e

text \<open>
  \<open>awaitIfAsync\<close> calls the action once and the callback at most once; the model returns
  what the callback returns, in the world in which it runs, and \<open>None\<close> when it is never
  called. The \<open>catch\<close> of the source also covers the callback; the callbacks of
  \<open>loadSource\<close> do not throw.
\<close>

definition awaitIfAsync ::
  "('a, 'e, 'x) action \<Rightarrow> (('a, 'e) callback_args \<Rightarrow> 'x world_scheme \<Rightarrow> 'r) \<Rightarrow> 'x world_scheme
     \<Rightarrow> 'r option" where
  "awaitIfAsync action callback w =
    (case action w of
       Returns returnedValue w' \<Rightarrow> Some (callback (Succeeded returnedValue) w')
     | Throws error w' \<Rightarrow> Some (callback (Failed error) w')
     | Fulfils result w' \<Rightarrow> Some (callback (Succeeded result) w')
     | Rejects error w' \<Rightarrow> Some (callback (Failed error) w')
     | NeverSettles \<Rightarrow> None)"

text \<open>
  What the first stage of a source loads: the final value, or a function, the second stage
  (\<open>isFinalResultLoaded\<close> is \<open>typeof loadResult !== 'function'\<close>).
\<close>

datatype ('v, 'e, 'x) load_result =
    Final 'v
  | GetStage "('v, 'e, 'x) action"

text \<open>
  The three functions \<open>loadSource\<close> resolves its promise with, each with the
  \<open>loadDuration\<close> it closes over.
\<close>

datatype ('v, 'e, 'x) finalizer =
    FinalError 'e int
  | FinalValue 'v int
  | FinalGet "('v, 'e, 'x) action" int

datatype ('a, 'e) promise = Resolved 'a | RejectedWith 'e | Pending

text \<open>
  The calls a run makes of the functions it was given, in order, each with the world it
  was made in. This trace is not in the source.
\<close>

datatype 'x call = SourceCalled "'x world_scheme" | GetStageCalled "'x world_scheme"

text \<open>
  \<open>loadSource\<close>, called in the world \<open>w0\<close>: the calls it makes and \<open>sourceLoadPromise\<close>.
  The function \<open>getComponent\<close> it returns closes over that promise only, so the model of
  \<open>getComponent\<close> takes the promise as its argument.
\<close>

definition loadSource ::
  "(('v, 'e, 'x) load_result, 'e, 'x) action \<Rightarrow> 'x world_scheme
     \<Rightarrow> 'x call list \<times> (('v, 'e, 'x) finalizer, 'e) promise" where
  "loadSource source w0 =
    (let loadStartTime = now w0;
         settled = awaitIfAsync source
           (\<lambda>loadArgs w1.
              let loadDuration = now w1 - loadStartTime
              in (case loadArgs of
                    Failed error \<Rightarrow> FinalError error loadDuration
                  | Succeeded loadResult \<Rightarrow>
                      (case loadResult of
                         Final v \<Rightarrow> FinalValue v loadDuration
                       | GetStage get \<Rightarrow> FinalGet get loadDuration))) w0
     in ([SourceCalled w0], case settled of None \<Rightarrow> Pending | Some f \<Rightarrow> Resolved f))"

text \<open>
  \<open>finalizeSource()\<close>, called in the world \<open>w\<close>: the calls it makes and what it returns, a
  component or, for a source with a second stage, the promise of one.
\<close>

definition finalizeSource ::
  "('v, 'e, 'x) finalizer \<Rightarrow> 'x world_scheme \<Rightarrow> 'x call list \<times> (('v, 'e) component, 'e) promise" where
  "finalizeSource f w =
    (case f of
       FinalError error loadDuration \<Rightarrow> ([], Resolved (error_component error loadDuration))
     | FinalValue v loadDuration \<Rightarrow> ([], Resolved (value_component v loadDuration))
     | FinalGet get loadDuration \<Rightarrow>
         (let getStartTime = now w;
              settled = awaitIfAsync get
                (\<lambda>getArgs w2.
                   let duration = loadDuration + now w2 - getStartTime
                   in (case getArgs of
                         Failed error \<Rightarrow> error_component error duration
                       | Succeeded v \<Rightarrow> value_component v duration)) w
          in ([GetStageCalled w], case settled of None \<Rightarrow> Pending | Some c \<Rightarrow> Resolved c)))"

text \<open>
  \<open>getComponent()\<close> is \<open>sourceLoadPromise.then((finalizeSource) => finalizeSource())\<close>;
  \<open>w\<close> is the world in which the reaction runs.
\<close>

definition getComponent ::
  "(('v, 'e, 'x) finalizer, 'e) promise \<Rightarrow> 'x world_scheme
     \<Rightarrow> 'x call list \<times> (('v, 'e) component, 'e) promise" where
  "getComponent sourceLoadPromise w =
    (case sourceLoadPromise of
       Resolved f \<Rightarrow> finalizeSource f w
     | RejectedWith error \<Rightarrow> ([], RejectedWith error)
     | Pending \<Rightarrow> ([], Pending))"

text \<open>A source that throws, rejects, or fails in its second stage.\<close>

definition fails_with :: "('a, 'e, 'x) completion \<Rightarrow> 'e \<Rightarrow> 'x world_scheme \<Rightarrow> bool" where
  "fails_with c e w = (c = Throws e w \<or> c = Rejects e w)"

definition succeeds_with :: "('a, 'e, 'x) completion \<Rightarrow> 'a \<Rightarrow> 'x world_scheme \<Rightarrow> bool" where
  "succeeds_with c v w = (c = Returns v w \<or> c = Fulfils v w)"

text \<open>Exactly one of the keys \<open>value\<close> and \<open>error\<close> is in the component.\<close>

definition one_of_value_error :: "('v, 'e) component \<Rightarrow> bool" where
  "one_of_value_error c = ((value_opt c = None) \<noteq> (error_opt c = None))"

section \<open>Relating the two hashers\<close>

text \<open>The 64-bit word a pair of the source stands for.\<close>

definition val64 :: "x64 \<Rightarrow> 64 word" where
  "val64 m = push_bit 32 (ucast (fst m)) OR ucast (snd m)"

text \<open>
  A non-negative integer below \<open>16 ^ k\<close> in exactly \<open>k\<close> hexadecimal digits, and a 32-bit
  word in eight digits read off its bits.
\<close>

primrec fixed_hex :: "nat \<Rightarrow> int \<Rightarrow> jsstring" where
  "fixed_hex 0 n = []"
| "fixed_hex (Suc k) n = fixed_hex k (n div 16) @ [hex_digit (n mod 16)]"

definition hex32 :: "32 word \<Rightarrow> jsstring" where
  "hex32 w = map (\<lambda>i. lower_hex_char (unat (drop_bit (4 * (7 - i)) w AND 0xf))) [0..<8]"

section \<open>Recursion equations\<close>

text \<open>
  The equations of the loops rewrite their own right-hand sides, so they are used by hand.
\<close>

declare toString16.simps [simp del]
declare block_loop.simps [simp del]
declare ref_body.simps [simp del]
declare getUTF8Bytes_loop.simps [simp del]

section \<open>The hasher on small inputs\<close>

lemma getUTF8Bytes_Nil: "getUTF8Bytes [] = []"
  by (simp add: getUTF8Bytes_def getUTF8Bytes_loop.simps)

lemma x64Add_zero: "x64Add (0, 0) (0, 0) = (0, 0)"
  by code_simp

lemma x64Fmix_zero: "x64Fmix (0, 0) = (0, 0)"
  by code_simp

lemma x64Xor_zero: "x64Xor (0, 0) (0, 0) = (0, 0)"
  by (simp add: x64Xor_def)

lemma hex8_zero: "hex8 0 = str ''00000000''"
  by code_simp

lemma tail_switch_zero: "tail_switch key i 0 s = s"
  by (simp add: tail_switch_def)

lemma x64hash128_empty: "x64hash128 [] None = str ''00000000000000000000000000000000''"
  by (simp add: x64hash128_def getUTF8Bytes_Nil tail_switch_zero x64Xor_zero x64Add_zero
      x64Fmix_zero hex8_zero block_loop.simps) (simp add: str_def)

lemma reference_empty:
  "hex128 (MurmurHash3_x64_128 [] 0) = str ''00000000000000000000000000000000''"
  by code_simp

lemma length_hex8: "length (hex8 w) = 8"
  by (simp add: hex8_def slice_last8_def str_def)

lemma x64hash128_shape:
  "\<exists>a b c d. x64hash128 input seed = hex8 a @ hex8 b @ hex8 c @ hex8 d"
  unfolding x64hash128_def Let_def split_def by blast

lemma length_x64hash128: "length (x64hash128 input seed) = 32"
proof -
  obtain a b c d where "x64hash128 input seed = hex8 a @ hex8 b @ hex8 c @ hex8 d"
    using x64hash128_shape by blast
  then show ?thesis by (simp add: length_hex8)
qed

lemma TextEncoder_encode_Nil: "TextEncoder_encode [] = []"
  by (simp add: TextEncoder_encode_def)

section \<open>Pairs of 32-bit values as 64-bit words\<close>

lemma val64_word_cat: "val64 m = word_cat (fst m) (snd m)"
  by (simp add: val64_def word_cat_eq_push_bit_or)

lemma bit_val64:
  "bit (val64 m) n \<longleftrightarrow> (if n < 32 then bit (snd m) n else n < 64 \<and> bit (fst m) (n - 32))"
  by (auto simp: val64_word_cat bit_simps)

lemma val64_xor: "val64 (x64Xor m n) = val64 m XOR val64 n"
  by (rule bit_word_eqI) (simp add: bit_val64 x64Xor_def bit_simps)

lemma uint_val64: "uint (val64 m) = 2 ^ 32 * uint (fst m) + uint (snd m)"
proof -
  have "uint (val64 m) = take_bit 64 (concat_bit 32 (uint (snd m)) (uint (fst m)))"
    by (simp add: val64_word_cat word_cat_eq' uint_word_of_int_eq)
  also have "\<dots> = concat_bit 32 (uint (snd m)) (uint (fst m))"
  proof (rule take_bit_int_eq_self)
    show "0 \<le> concat_bit 32 (uint (snd m)) (uint (fst m))" by simp
    have "uint (fst m) < 2 ^ 32" "uint (snd m) < 2 ^ 32"
      using uint_bounded [of "fst m"] uint_bounded [of "snd m"] by simp_all
    then show "concat_bit 32 (uint (snd m)) (uint (fst m)) < 2 ^ 64"
      by (simp add: concat_bit_eq take_bit_eq_mod push_bit_eq_mult)
  qed
  also have "\<dots> = 2 ^ 32 * uint (fst m) + uint (snd m)"
    using uint_bounded [of "snd m"]
    by (simp add: concat_bit_eq take_bit_eq_mod push_bit_eq_mult)
  finally show ?thesis .
qed

lemma uint_js_ushr16: "uint (js_ushr x 16) = uint x div 2 ^ 16"
  by (simp add: js_ushr_def drop_bit_eq_div uint_div_distrib)

lemma uint_and_ffff: "uint (x AND 0xffff) = uint x mod 2 ^ 16" for x :: "32 word"
proof -
  have "x AND 0xffff = take_bit 16 x"
    by (simp add: take_bit_eq_mask mask_eq_exp_minus_1)
  then have "uint (x AND 0xffff) = uint (take_bit 16 x)"
    by (simp only:)
  also have "\<dots> = take_bit 16 (uint x)"
    by (rule unsigned_take_bit_eq)
  also have "\<dots> = uint x mod 2 ^ 16"
    by (rule take_bit_eq_mod)
  finally show ?thesis .
qed

lemma uint_num_pack:
  assumes "0 \<le> hi" "hi < 2 ^ 16" "0 \<le> lo" "lo < 2 ^ 16"
  shows "uint (num_pack hi lo) = hi * 2 ^ 16 + lo"
proof -
  have lo: "take_bit 16 lo = lo"
    using assms by (simp add: take_bit_int_eq_self)
  have "0 \<le> hi * 2 ^ 16" "hi * 2 ^ 16 < 2 ^ 32"
    using assms by simp_all
  then have hi: "take_bit 32 (push_bit 16 hi) = push_bit 16 hi"
    by (intro take_bit_int_eq_self) (simp_all add: push_bit_eq_mult)
  have lo32: "take_bit 32 lo = lo"
    using assms by (intro take_bit_int_eq_self) simp_all
  have hi32: "take_bit 32 hi = hi"
    using assms by (intro take_bit_int_eq_self) simp_all
  have "uint (num_pack hi lo) = push_bit 16 hi OR lo"
    by (simp add: num_pack_def uint_or uint_word_of_int_eq lo32 hi hi32 unsigned_push_bit_eq)
  also have "\<dots> = concat_bit 16 lo hi"
    by (simp add: concat_bit_def lo or.commute)
  also have "\<dots> = hi * 2 ^ 16 + lo"
    by (simp add: concat_bit_eq lo push_bit_eq_mult)
  finally show ?thesis .
qed

lemma num_and_ffff_eq: "num_and_ffff x = x mod 2 ^ 16"
proof -
  have "(2::int) ^ 16 dvd 2 ^ 32" by simp
  then show ?thesis
    unfolding num_and_ffff_def by (rule mod_mod_cancel)
qed

lemma num_ushr16_small: "0 \<le> x \<Longrightarrow> x < 2 ^ 32 \<Longrightarrow> num_ushr16 x = x div 2 ^ 16"
  by (simp add: num_ushr16_def)

lemma limb_bounds:
  "0 \<le> uint (js_ushr x 16)" "uint (js_ushr x 16) < 2 ^ 16"
  "0 \<le> uint (x AND 0xffff)" "uint (x AND 0xffff) < 2 ^ 16"
proof -
  have "uint x < 2 ^ 32" using uint_bounded [of x] by simp
  then show "uint (js_ushr x 16) < 2 ^ 16"
    by (simp add: uint_js_ushr16)
  show "uint (x AND 0xffff) < 2 ^ 16"
    by (simp add: uint_and_ffff)
qed simp_all

lemma limbs_join: "uint x = uint (js_ushr x 16) * 2 ^ 16 + uint (x AND 0xffff)"
  by (simp add: uint_js_ushr16 uint_and_ffff)

lemma uint_val64_limbs:
  "uint (val64 m) = uint (js_ushr (fst m) 16) * 2 ^ 48 + uint (fst m AND 0xffff) * 2 ^ 32
     + uint (js_ushr (snd m) 16) * 2 ^ 16 + uint (snd m AND 0xffff)"
  by (simp add: uint_val64 limbs_join [of "fst m"] limbs_join [of "snd m"])

lemma uint_val64_packed:
  assumes "0 \<le> a" "a < 2 ^ 16" "0 \<le> b" "b < 2 ^ 16" "0 \<le> c" "c < 2 ^ 16" "0 \<le> d" "d < 2 ^ 16"
  shows "uint (val64 (num_pack a b, num_pack c d)) = a * 2 ^ 48 + b * 2 ^ 32 + c * 2 ^ 16 + d"
  using assms by (simp add: uint_val64 uint_num_pack)

lemma val64_eqI:
  assumes "uint (val64 r) + 2 ^ 64 * q = v"
  shows "val64 r = word_of_int v"
proof -
  have "word_of_int v = (word_of_int (uint (val64 r)) + word_of_int (2 ^ 64 * q) :: 64 word)"
    by (simp flip: assms)
  also have "(word_of_int (2 ^ 64 * q) :: 64 word) = word_of_int 0"
    unfolding word_of_int_eq_iff by (simp add: take_bit_eq_mod)
  finally show ?thesis by simp
qed

lemma add_carry_identity:
  fixes T0 T1 T2 T3 c0 c1 c2 c3 r0 r1 r2 r3 :: int
  assumes "V = r0 * 2 ^ 48 + r1 * 2 ^ 32 + r2 * 2 ^ 16 + r3"
    and "T0 = c1 + (m0 + n0)" "T1 = c2 + (m1 + n1)" "T2 = c3 + (m2 + n2)" "T3 = m3 + n3"
    and "T0 = 2 ^ 16 * c0 + r0" "T1 = 2 ^ 16 * c1 + r1" "T2 = 2 ^ 16 * c2 + r2"
      "T3 = 2 ^ 16 * c3 + r3"
    and "M = m0 * 2 ^ 48 + m1 * 2 ^ 32 + m2 * 2 ^ 16 + m3"
    and "N = n0 * 2 ^ 48 + n1 * 2 ^ 32 + n2 * 2 ^ 16 + n3"
  shows "V + 2 ^ 64 * c0 = M + N"
  using assms by simp

lemma div_mod_16: "x = 2 ^ 16 * (x div 2 ^ 16) + x mod 2 ^ 16" for x :: int
  by simp

lemma val64_add: "val64 (x64Add m n) = val64 m + val64 n"
proof -
  define m0 m1 m2 m3 where m: "m0 = uint (js_ushr (fst m) 16)" "m1 = uint (fst m AND 0xffff)"
    "m2 = uint (js_ushr (snd m) 16)" "m3 = uint (snd m AND 0xffff)"
  define n0 n1 n2 n3 where n: "n0 = uint (js_ushr (fst n) 16)" "n1 = uint (fst n AND 0xffff)"
    "n2 = uint (js_ushr (snd n) 16)" "n3 = uint (snd n AND 0xffff)"
  define T3 where "T3 = m3 + n3"
  define T2 where "T2 = num_ushr16 T3 + (m2 + n2)"
  define T1 where "T1 = num_ushr16 T2 + (m1 + n1)"
  define T0 where "T0 = num_ushr16 T1 + (m0 + n0)"
  have res: "x64Add m n = (num_pack (num_and_ffff T0) (num_and_ffff T1),
      num_pack (num_and_ffff T2) (num_and_ffff T3))"
    by (simp only: x64Add_def Let_def T0_def T1_def T2_def T3_def m n)
  have b: "0 \<le> m0" "m0 < 2 ^ 16" "0 \<le> m1" "m1 < 2 ^ 16" "0 \<le> m2" "m2 < 2 ^ 16"
    "0 \<le> m3" "m3 < 2 ^ 16" "0 \<le> n0" "n0 < 2 ^ 16" "0 \<le> n1" "n1 < 2 ^ 16"
    "0 \<le> n2" "n2 < 2 ^ 16" "0 \<le> n3" "n3 < 2 ^ 16"
    unfolding m n by (rule limb_bounds)+
  have t3: "0 \<le> T3" "T3 < 2 ^ 32" using b by (simp_all add: T3_def)
  have c3: "num_ushr16 T3 = T3 div 2 ^ 16" using t3 by (rule num_ushr16_small)
  have t2: "0 \<le> T2" "T2 < 2 ^ 32" using b t3 by (simp_all add: T2_def c3)
  have c2: "num_ushr16 T2 = T2 div 2 ^ 16" using t2 by (rule num_ushr16_small)
  have t1: "0 \<le> T1" "T1 < 2 ^ 32" using b t2 by (simp_all add: T1_def c2)
  have c1: "num_ushr16 T1 = T1 div 2 ^ 16" using t1 by (rule num_ushr16_small)
  have M: "uint (val64 m) = m0 * 2 ^ 48 + m1 * 2 ^ 32 + m2 * 2 ^ 16 + m3"
    and N: "uint (val64 n) = n0 * 2 ^ 48 + n1 * 2 ^ 32 + n2 * 2 ^ 16 + n3"
    by (simp_all only: uint_val64_limbs m n)
  have V: "uint (val64 (x64Add m n))
      = T0 mod 2 ^ 16 * 2 ^ 48 + T1 mod 2 ^ 16 * 2 ^ 32 + T2 mod 2 ^ 16 * 2 ^ 16 + T3 mod 2 ^ 16"
    unfolding res num_and_ffff_eq by (rule uint_val64_packed) simp_all
  have "uint (val64 (x64Add m n)) + 2 ^ 64 * (T0 div 2 ^ 16) = uint (val64 m) + uint (val64 n)"
  proof (rule add_carry_identity [OF V _ _ _ T3_def div_mod_16 div_mod_16 div_mod_16 div_mod_16 M N])
    show "T0 = T1 div 2 ^ 16 + (m0 + n0)" using T0_def c1 by simp
    show "T1 = T2 div 2 ^ 16 + (m1 + n1)" using T1_def c2 by simp
    show "T2 = T3 div 2 ^ 16 + (m2 + n2)" using T2_def c3 by simp
  qed
  then have "val64 (x64Add m n) = word_of_int (uint (val64 m) + uint (val64 n))"
    by (rule val64_eqI)
  then show ?thesis by simp
qed

lemma mul_carry_identity:
  fixes T0 T1a T1b T1c T2a T2b T3 :: int
  assumes "V = r0 * 2 ^ 48 + r1c * 2 ^ 32 + r2b * 2 ^ 16 + r3"
    and "T3 = m3 * n3" "T2a = c3 + m2 * n3" "T2b = r2a + m3 * n2"
      "T1a = c2a + c2b + m1 * n3" "T1b = r1a + m2 * n2" "T1c = r1b + m3 * n1"
      "T0 = c1a + c1b + c1c + (m0 * n3 + m1 * n2 + m2 * n1 + m3 * n0)"
    and "T3 = 2 ^ 16 * c3 + r3" "T2a = 2 ^ 16 * c2a + r2a" "T2b = 2 ^ 16 * c2b + r2b"
      "T1a = 2 ^ 16 * c1a + r1a" "T1b = 2 ^ 16 * c1b + r1b" "T1c = 2 ^ 16 * c1c + r1c"
      "T0 = 2 ^ 16 * c0 + r0"
    and "M = m0 * 2 ^ 48 + m1 * 2 ^ 32 + m2 * 2 ^ 16 + m3"
    and "N = n0 * 2 ^ 48 + n1 * 2 ^ 32 + n2 * 2 ^ 16 + n3"
  shows "V + 2 ^ 64 * (c0 + (m0 * n2 + m1 * n1 + m2 * n0) + 2 ^ 16 * (m0 * n1 + m1 * n0)
      + 2 ^ 32 * (m0 * n0)) = M * N"
  using assms by (simp add: algebra_simps)


lemma limb_product_bounds:
  fixes a b :: int
  assumes "0 \<le> a" "a < 2 ^ 16" "0 \<le> b" "b < 2 ^ 16"
  shows "0 \<le> a * b" "a * b \<le> 65535 * 65535"
proof -
  show "0 \<le> a * b" using assms by simp
  have "a \<le> 65535" "b \<le> 65535" using assms by simp_all
  then show "a * b \<le> 65535 * 65535"
    using assms by (intro mult_mono) simp_all
qed

lemma carry_bounds:
  fixes x :: int
  assumes "0 \<le> x" "x < 2 ^ 32"
  shows "0 \<le> x div 2 ^ 16" "x div 2 ^ 16 \<le> 65535" "0 \<le> x mod 2 ^ 16" "x mod 2 ^ 16 \<le> 65535"
proof -
  show "0 \<le> x div 2 ^ 16" using assms by simp
  have "x div 2 ^ 16 < 2 ^ 16"
    using assms by simp
  then show "x div 2 ^ 16 \<le> 65535" by simp
  show "0 \<le> x mod 2 ^ 16" by simp
  have "x mod 2 ^ 16 < 2 ^ 16" by simp
  then show "x mod 2 ^ 16 \<le> 65535" by simp
qed


lemma val64_multiply: "val64 (x64Multiply m n) = val64 m * val64 n"
proof -
  define m0 m1 m2 m3 where m: "m0 = uint (js_ushr (fst m) 16)" "m1 = uint (fst m AND 0xffff)"
    "m2 = uint (js_ushr (snd m) 16)" "m3 = uint (snd m AND 0xffff)"
  define n0 n1 n2 n3 where n: "n0 = uint (js_ushr (fst n) 16)" "n1 = uint (fst n AND 0xffff)"
    "n2 = uint (js_ushr (snd n) 16)" "n3 = uint (snd n AND 0xffff)"
  define T3 where "T3 = m3 * n3"
  define T2a where "T2a = num_ushr16 T3 + m2 * n3"
  define T2b where "T2b = num_and_ffff T2a + m3 * n2"
  define T1a where "T1a = num_ushr16 T2a + num_ushr16 T2b + m1 * n3"
  define T1b where "T1b = num_and_ffff T1a + m2 * n2"
  define T1c where "T1c = num_and_ffff T1b + m3 * n1"
  define T0 where "T0 = num_ushr16 T1a + num_ushr16 T1b + num_ushr16 T1c
      + (m0 * n3 + m1 * n2 + m2 * n1 + m3 * n0)"
  have res: "x64Multiply m n = (num_pack (num_and_ffff T0) (num_and_ffff T1c),
      num_pack (num_and_ffff T2b) (num_and_ffff T3))"
    by (simp only: x64Multiply_def Let_def T0_def T1a_def T1b_def T1c_def T2a_def T2b_def
        T3_def m n)
  have b: "0 \<le> m0" "m0 < 2 ^ 16" "0 \<le> m1" "m1 < 2 ^ 16" "0 \<le> m2" "m2 < 2 ^ 16"
    "0 \<le> m3" "m3 < 2 ^ 16" "0 \<le> n0" "n0 < 2 ^ 16" "0 \<le> n1" "n1 < 2 ^ 16"
    "0 \<le> n2" "n2 < 2 ^ 16" "0 \<le> n3" "n3 < 2 ^ 16"
    unfolding m n by (rule limb_bounds)+
  note p33 = limb_product_bounds [OF b(7,8) b(15,16)]
  note p23 = limb_product_bounds [OF b(5,6) b(15,16)]
  note p32 = limb_product_bounds [OF b(7,8) b(13,14)]
  note p13 = limb_product_bounds [OF b(3,4) b(15,16)]
  note p22 = limb_product_bounds [OF b(5,6) b(13,14)]
  note p31 = limb_product_bounds [OF b(7,8) b(11,12)]
  have t3: "0 \<le> T3" "T3 < 2 ^ 32"
    using p33 by (simp_all add: T3_def)
  have c3: "num_ushr16 T3 = T3 div 2 ^ 16" using t3 by (rule num_ushr16_small)
  have t2a: "0 \<le> T2a" "T2a < 2 ^ 32"
    using carry_bounds [OF t3] p23 by (simp_all add: T2a_def c3)
  have c2a: "num_ushr16 T2a = T2a div 2 ^ 16" using t2a by (rule num_ushr16_small)
  have t2b: "0 \<le> T2b" "T2b < 2 ^ 32"
    using carry_bounds [OF t2a] p32 by (simp_all add: T2b_def num_and_ffff_eq)
  have c2b: "num_ushr16 T2b = T2b div 2 ^ 16" using t2b by (rule num_ushr16_small)
  have t1a: "0 \<le> T1a" "T1a < 2 ^ 32"
    using carry_bounds [OF t2a] carry_bounds [OF t2b] p13 by (simp_all add: T1a_def c2a c2b)
  have c1a: "num_ushr16 T1a = T1a div 2 ^ 16" using t1a by (rule num_ushr16_small)
  have t1b: "0 \<le> T1b" "T1b < 2 ^ 32"
    using carry_bounds [OF t1a] p22 by (simp_all add: T1b_def num_and_ffff_eq)
  have c1b: "num_ushr16 T1b = T1b div 2 ^ 16" using t1b by (rule num_ushr16_small)
  have t1c: "0 \<le> T1c" "T1c < 2 ^ 32"
    using carry_bounds [OF t1b] p31 by (simp_all add: T1c_def num_and_ffff_eq)
  have c1c: "num_ushr16 T1c = T1c div 2 ^ 16" using t1c by (rule num_ushr16_small)
  have M: "uint (val64 m) = m0 * 2 ^ 48 + m1 * 2 ^ 32 + m2 * 2 ^ 16 + m3"
    and N: "uint (val64 n) = n0 * 2 ^ 48 + n1 * 2 ^ 32 + n2 * 2 ^ 16 + n3"
    by (simp_all only: uint_val64_limbs m n)
  have V: "uint (val64 (x64Multiply m n))
      = T0 mod 2 ^ 16 * 2 ^ 48 + T1c mod 2 ^ 16 * 2 ^ 32 + T2b mod 2 ^ 16 * 2 ^ 16 + T3 mod 2 ^ 16"
    unfolding res num_and_ffff_eq by (rule uint_val64_packed) simp_all
  have "uint (val64 (x64Multiply m n))
      + 2 ^ 64 * (T0 div 2 ^ 16 + (m0 * n2 + m1 * n1 + m2 * n0) + 2 ^ 16 * (m0 * n1 + m1 * n0)
          + 2 ^ 32 * (m0 * n0))
      = uint (val64 m) * uint (val64 n)"
  proof (rule mul_carry_identity [OF V T3_def _ _ _ _ _ _ div_mod_16 div_mod_16 div_mod_16
        div_mod_16 div_mod_16 div_mod_16 div_mod_16 M N])
    show "T2a = T3 div 2 ^ 16 + m2 * n3" using T2a_def c3 by simp
    show "T2b = T2a mod 2 ^ 16 + m3 * n2" using T2b_def by (simp add: num_and_ffff_eq)
    show "T1a = T2a div 2 ^ 16 + T2b div 2 ^ 16 + m1 * n3" using T1a_def c2a c2b by simp
    show "T1b = T1a mod 2 ^ 16 + m2 * n2" using T1b_def by (simp add: num_and_ffff_eq)
    show "T1c = T1b mod 2 ^ 16 + m3 * n1" using T1c_def by (simp add: num_and_ffff_eq)
    show "T0 = T1a div 2 ^ 16 + T1b div 2 ^ 16 + T1c div 2 ^ 16
        + (m0 * n3 + m1 * n2 + m2 * n1 + m3 * n0)"
      using T0_def c1a c1b c1c by simp
  qed
  then have "val64 (x64Multiply m n) = word_of_int (uint (val64 m) * uint (val64 n))"
    by (rule val64_eqI)
  then show ?thesis by simp
qed

lemma bit_val64_pair:
  "bit (val64 (a, b)) n \<longleftrightarrow> (if n < 32 then bit b n else n < 64 \<and> bit a (n - 32))"
  by (simp add: bit_val64)

lemma bit_beyond_32: "32 \<le> k \<Longrightarrow> bit w k = False" for w :: "32 word"
  using bit_imp_le_length [of w k] by auto

lemma bit_beyond_64: "64 \<le> k \<Longrightarrow> bit w k = False" for w :: "64 word"
  using bit_imp_le_length [of w k] by auto

lemma bit_ROTL64:
  "bit (ROTL64 v r) n \<longleftrightarrow> (r \<le> n \<and> n < 64 \<and> bit v (n - r)) \<or> bit v (64 - r + n)"
  by (auto simp: ROTL64_def bit_simps)

lemma bit_shift_pair:
  "bit (push_bit r x OR drop_bit k y) n \<longleftrightarrow> (r \<le> n \<and> n < 32 \<and> bit x (n - r)) \<or> bit y (k + n)"
  for x y :: "32 word"
  by (auto simp: bit_simps)

lemma rotl_low_1:
  fixes a b :: "32 word"
  assumes "r + r' = 32" "n < r"
  shows "bit (val64 (push_bit r a OR drop_bit r' b, push_bit r b OR drop_bit r' a)) n
    = bit (val64 (a, b)) (32 + r' + n)"
  using assms by (simp add: bit_val64_pair bit_shift_pair)

lemma rotl_low_2:
  fixes a b :: "32 word"
  assumes "r + r' = 32" "r + j < 32"
  shows "bit (val64 (push_bit r a OR drop_bit r' b, push_bit r b OR drop_bit r' a)) (r + j)
    = bit (val64 (a, b)) j"
  using assms by (simp add: bit_val64_pair bit_shift_pair bit_beyond_32)

lemma rotl_low_3:
  fixes a b :: "32 word"
  assumes "r + r' = 32" "k < r"
  shows "bit (val64 (push_bit r a OR drop_bit r' b, push_bit r b OR drop_bit r' a)) (32 + k)
    = bit (val64 (a, b)) (r' + k)"
  using assms by (simp add: bit_val64_pair bit_shift_pair)

lemma rotl_low_4:
  fixes a b :: "32 word"
  assumes "r + r' = 32" "r + j < 32"
  shows "bit (val64 (push_bit r a OR drop_bit r' b, push_bit r b OR drop_bit r' a)) (32 + (r + j))
    = bit (val64 (a, b)) (32 + j)"
  using assms by (simp add: bit_val64_pair bit_shift_pair bit_beyond_32)


lemma split_index:
  fixes n r :: nat
  assumes "n < 64" "r < 32"
  obtains "n < r"
  | j where "n = r + j" "r + j < 32"
  | k where "n = 32 + k" "k < r"
  | j where "n = 32 + (r + j)" "r + j < 32"
proof -
  consider "n < r" | "r \<le> n" "n < 32" | "32 \<le> n" "n < 32 + r" | "32 + r \<le> n"
    by linarith
  then show thesis
  proof cases
    case 1
    then show ?thesis by (rule that(1))
  next
    case 2
    then have "n = r + (n - r)" "r + (n - r) < 32" by simp_all
    then show ?thesis by (rule that(2))
  next
    case 3
    then have "n = 32 + (n - 32)" "n - 32 < r" by simp_all
    then show ?thesis by (rule that(3))
  next
    case 4
    then have "n = 32 + (r + (n - 32 - r))" "r + (n - 32 - r) < 32"
      using assms by simp_all
    then show ?thesis by (rule that(4))
  qed
qed

lemma rotl_bits_low:
  fixes a b :: "32 word"
  assumes "r + r' = 32" "0 < r'"
  shows "val64 (push_bit r a OR drop_bit r' b, push_bit r b OR drop_bit r' a)
    = ROTL64 (val64 (a, b)) r"
proof (rule bit_word_eqI)
  fix n
  assume "n < LENGTH(64)"
  then have n: "n < 64" by simp
  have r: "r < 32" and e: "64 - r = 32 + r'" "32 - r = r'"
    using assms by simp_all
  from n r show "bit (val64 (push_bit r a OR drop_bit r' b, push_bit r b OR drop_bit r' a)) n
      = bit (ROTL64 (val64 (a, b)) r) n"
  proof (cases rule: split_index)
    case 1
    then show ?thesis
      using assms by (simp add: rotl_low_1 bit_ROTL64 e)
  next
    case (2 j)
    then show ?thesis
      using assms by (simp add: rotl_low_2 bit_ROTL64 e bit_beyond_64)
  next
    case (3 k)
    then have "32 + k - r = r' + k" using assms by simp
    with 3 show ?thesis
      using assms by (simp add: rotl_low_3 bit_ROTL64 e bit_beyond_64)
  next
    case (4 j)
    then have "32 + (r + j) - r = 32 + j" by simp
    with 4 show ?thesis
      using assms by (simp add: rotl_low_4 bit_ROTL64 e bit_beyond_64)
  qed
qed


lemma ROTL64_swap:
  fixes a b :: "32 word"
  assumes "r + r' = 32" "0 < r'"
  shows "ROTL64 (val64 (a, b)) (32 + r) = ROTL64 (val64 (b, a)) r"
proof (rule bit_word_eqI)
  fix n
  assume "n < LENGTH(64)"
  then have n: "n < 64" by simp
  have r: "r < 32" and e: "64 - r = 32 + r'" "64 - (32 + r) = r'"
    using assms by simp_all
  from n r show "bit (ROTL64 (val64 (a, b)) (32 + r)) n = bit (ROTL64 (val64 (b, a)) r) n"
  proof (cases rule: split_index)
    case 1
    then show ?thesis
      using assms by (simp add: bit_ROTL64 e bit_val64_pair)
  next
    case (2 j)
    then have "r' + (r + j) = 32 + j" "32 + r' + (r + j) = 64 + j" "r' + (r + j) - 32 = j"
      using assms by simp_all
    with 2 show ?thesis
      using assms by (simp add: bit_ROTL64 e bit_val64_pair bit_beyond_64)
  next
    case (3 k)
    then have "32 + k - r = r' + k" "r' + (32 + k) - 32 = r' + k" using assms by simp_all
    with 3 show ?thesis
      using assms by (simp add: bit_ROTL64 e bit_val64_pair bit_beyond_64)
  next
    case (4 j)
    then have "32 + (r + j) - (32 + r) = j" "32 + (r + j) - r = 32 + j"
      "r' + (32 + (r + j)) = 64 + j" "32 + r' + (32 + (r + j)) = 64 + (32 + j)"
      using assms by simp_all
    with 4 show ?thesis
      using assms by (simp add: bit_ROTL64 e bit_val64_pair bit_beyond_64)
  qed
qed

lemma rotl_bits_high:
  fixes a b :: "32 word"
  assumes "r + r' = 32" "0 < r'"
  shows "val64 (push_bit r b OR drop_bit r' a, push_bit r a OR drop_bit r' b)
    = ROTL64 (val64 (a, b)) (32 + r)"
  by (simp only: rotl_bits_low [OF assms] ROTL64_swap [OF assms])

lemma val64_pair_eq: "val64 (fst m, snd m) = val64 m"
  by simp

lemma val64_rotl_low:
  assumes "0 < r" "r < 32"
  shows "val64 (x64Rotl m r) = ROTL64 (val64 m) r"
proof -
  have "x64Rotl m r = (push_bit r (fst m) OR drop_bit (32 - r) (snd m),
      push_bit r (snd m) OR drop_bit (32 - r) (fst m))"
    using assms by (simp add: x64Rotl_def js_shl_def js_ushr_def Let_def)
  moreover have "r + (32 - r) = 32" "0 < 32 - r"
    using assms by simp_all
  ultimately show ?thesis
    using rotl_bits_low [of r "32 - r" "fst m" "snd m"] by (simp only: val64_pair_eq)
qed

lemma val64_rotl_high:
  assumes "32 < r" "r < 64"
  shows "val64 (x64Rotl m r) = ROTL64 (val64 m) r"
proof -
  define k where "k = r - 32"
  have k: "r = 32 + k" "0 < k" "k < 32"
    using assms by (simp_all add: k_def)
  have "x64Rotl m (32 + k) = (push_bit k (snd m) OR drop_bit (32 - k) (fst m),
      push_bit k (fst m) OR drop_bit (32 - k) (snd m))"
    using k(2,3) by (simp add: x64Rotl_def js_shl_def js_ushr_def Let_def)
  moreover have "k + (32 - k) = 32" "0 < 32 - k"
    using k by simp_all
  ultimately show ?thesis
    using rotl_bits_high [of k "32 - k" "snd m" "fst m"] unfolding k(1)
    by (simp only: val64_pair_eq)
qed

lemma val64_rotl_27: "val64 (x64Rotl m 27) = ROTL64 (val64 m) 27"
  by (rule val64_rotl_low) simp_all

lemma val64_rotl_31: "val64 (x64Rotl m 31) = ROTL64 (val64 m) 31"
  by (rule val64_rotl_low) simp_all

lemma val64_rotl_33: "val64 (x64Rotl m 33) = ROTL64 (val64 m) 33"
  by (rule val64_rotl_high) simp_all

lemma val64_left_shift_low:
  assumes "0 < k" "k < 32"
  shows "val64 (x64LeftShift (a, b) k) = push_bit k (ucast b)"
proof -
  have s: "x64LeftShift (a, b) k = (drop_bit (32 - k) b, push_bit k b)"
    using assms by (simp add: x64LeftShift_def js_shl_def js_ushr_def Let_def)
  show ?thesis
    unfolding s
  proof (rule bit_word_eqI)
    fix n
    assume "n < LENGTH(64)"
    then have n: "n < 64" by simp
    show "bit (val64 (drop_bit (32 - k) b, push_bit k b)) n = bit (push_bit k (ucast b :: 64 word)) n"
    proof (cases "n < 32")
      case True
      then show ?thesis
        using assms by (auto simp: bit_val64_pair bit_simps)
    next
      case False
      then obtain j where j: "n = 32 + j" "j < 32"
        using n by (metis add_diff_inverse_nat add_less_cancel_left numeral_Bit0)
      have "32 - k + j = 32 + j - k" using assms by simp
      with j show ?thesis
        using assms by (auto simp: bit_val64_pair bit_simps dest: bit_imp_le_length)
    qed
  qed
qed

lemma val64_left_shift_high:
  assumes "32 \<le> k" "k < 64"
  shows "val64 (x64LeftShift (a, b) k) = push_bit k (ucast b)"
proof -
  have s: "x64LeftShift (a, b) k = (push_bit (k - 32) b, 0)"
    using assms by (simp add: x64LeftShift_def js_shl_def js_ushr_def Let_def)
  show ?thesis
    unfolding s
  proof (rule bit_word_eqI)
    fix n
    assume "n < LENGTH(64)"
    then have n: "n < 64" by simp
    show "bit (val64 (push_bit (k - 32) b, 0)) n = bit (push_bit k (ucast b :: 64 word)) n"
    proof (cases "n < 32")
      case True
      then show ?thesis
        using assms by (auto simp: bit_val64_pair bit_simps)
    next
      case False
      then obtain j where j: "n = 32 + j" "j < 32"
        using n by (metis add_diff_inverse_nat add_less_cancel_left numeral_Bit0)
      have "j - (k - 32) = 32 + j - k" "(k - 32 \<le> j) = (k \<le> 32 + j)" using assms by auto
      with j show ?thesis
        using assms by (auto simp: bit_val64_pair bit_simps dest: bit_imp_le_length)
    qed
  qed
qed

lemma val64_consts:
  "val64 C1 = ref_c1" "val64 C2 = ref_c2" "val64 M1 = 5" "val64 N1 = 0x52dce729"
  "val64 N2 = 0x38495ab5" "val64 F1 = 0xff51afd7ed558ccd" "val64 F2 = 0xc4ceb9fe1a85ec53"
  "val64 (0, 0) = 0"
  by (simp_all add: val64_def C1_def C2_def M1_def N1_def N2_def F1_def F2_def ref_c1_def
      ref_c2_def)

lemma val64_shift33: "val64 (0, js_ushr (fst h) 1) = drop_bit 33 (val64 h)"
proof (rule bit_word_eqI)
  fix n
  assume "n < LENGTH(64)"
  show "bit (val64 (0, js_ushr (fst h) 1)) n = bit (drop_bit 33 (val64 h)) n"
  proof (cases "n < 32")
    case True
    then have "33 + n - 32 = Suc n" by simp
    with True show ?thesis
      by (auto simp: bit_val64 js_ushr_def bit_simps dest: bit_imp_le_length)
  next
    case False
    then show ?thesis
      by (simp add: bit_val64 bit_simps bit_beyond_64)
  qed
qed

lemma val64_shift33_Suc: "val64 (0, js_ushr (fst h) (Suc 0)) = drop_bit 33 (val64 h)"
  using val64_shift33 [of h] by simp

lemma val64_fmix: "val64 (x64Fmix h) = fmix64 (val64 h)"
  by (simp add: x64Fmix_def fmix64_def Let_def val64_xor val64_multiply val64_shift33_Suc
      val64_consts)

lemma val64_seed: "val64 (0, seed) = ucast seed"
  by (simp add: val64_def)

lemma val64_length:
  assumes "n < 2 ^ 32"
  shows "val64 (0, word_of_nat n) = word_of_nat n"
proof -
  have "val64 (0, word_of_nat n) = ucast (word_of_nat n :: 32 word)"
    by (simp add: val64_def)
  also have "\<dots> = word_of_nat (take_bit 32 n)"
    by (simp add: unsigned_of_nat)
  also have "take_bit 32 n = n"
    using assms by (simp add: take_bit_nat_eq_self)
  finally show ?thesis .
qed

section \<open>Blocks and tail of the key\<close>

lemma ucast_byte_twice: "(ucast (ucast b :: 32 word) :: 64 word) = ucast b" for b :: "8 word"
  by (rule bit_word_eqI) (auto simp: bit_simps dest: bit_imp_le_length)

lemma ucast_shifted_byte:
  "k \<le> 24 \<Longrightarrow> (ucast (push_bit k (ucast b :: 32 word)) :: 64 word) = push_bit k (ucast b)"
  for b :: "8 word"
  by (rule bit_word_eqI) (auto simp: bit_simps dest: bit_imp_le_length)

lemma ucast_or_32_64: "(ucast (x OR y) :: 64 word) = ucast x OR ucast y" for x y :: "32 word"
  by (rule bit_word_eqI) (auto simp: bit_simps)

lemma byteAt_nth: "j < length key \<Longrightarrow> byteAt key j = ucast (key ! j)"
  by (simp add: byteAt_def)

lemma take_drop_nth:
  "i + n \<le> length xs \<Longrightarrow> take n (drop i xs) = map (\<lambda>j. xs ! (i + j)) [0..<n]"
  by (rule nth_equalityI) simp_all

lemma ucast_read32:
  assumes "i + 4 \<le> length key"
  shows "(ucast (read32 key i) :: 64 word)
    = ucast (key ! i) OR push_bit 8 (ucast (key ! (i + 1))) OR push_bit 16 (ucast (key ! (i + 2)))
        OR push_bit 24 (ucast (key ! (i + 3)))"
  using assms
  by (simp add: read32_def js_shl_def byteAt_nth ucast_or_32_64 ucast_shifted_byte
      ucast_byte_twice)

lemma le64_8:
  "le64 [b0, b1, b2, b3, b4, b5, b6, b7]
    = ucast b0 OR push_bit 8 (ucast b1) OR push_bit 16 (ucast b2) OR push_bit 24 (ucast b3)
      OR push_bit 32 (ucast b4) OR push_bit 40 (ucast b5) OR push_bit 48 (ucast b6)
      OR push_bit 56 (ucast b7)"
  by (simp add: push_bit_or push_bit_push_bit ac_simps)

lemma val64_read_block:
  assumes "i + 8 \<le> length key"
  shows "val64 (read32 key (i + 4), read32 key i) = le64 (take 8 (drop i key))"
proof -
  have t: "take 8 (drop i key)
      = [key ! i, key ! (i + 1), key ! (i + 2), key ! (i + 3), key ! (i + 4), key ! (i + 5),
         key ! (i + 6), key ! (i + 7)]"
    using assms by (simp add: take_drop_nth upt_rec eval_nat_numeral)
  have lo: "(ucast (read32 key i) :: 64 word)
      = ucast (key ! i) OR push_bit 8 (ucast (key ! (i + 1))) OR push_bit 16 (ucast (key ! (i + 2)))
        OR push_bit 24 (ucast (key ! (i + 3)))"
    using assms by (intro ucast_read32) simp
  have hi: "(ucast (read32 key (i + 4)) :: 64 word)
      = ucast (key ! (i + 4)) OR push_bit 8 (ucast (key ! (i + 5)))
        OR push_bit 16 (ucast (key ! (i + 6))) OR push_bit 24 (ucast (key ! (i + 7)))"
  proof -
    have e: "i + 4 + 1 = i + 5" "i + 4 + 2 = i + 6" "i + 4 + 3 = i + 7"
      by simp_all
    have "i + 4 + 4 \<le> length key"
      using assms by simp
    from ucast_read32 [OF this] show ?thesis
      by (simp only: e)
  qed
  show ?thesis
    unfolding t le64_8 val64_def fst_conv snd_conv lo hi
    by (simp add: push_bit_or push_bit_push_bit ac_simps)
qed

lemma block_step:
  assumes "i + 16 \<le> length key" "i < bytes"
  shows "\<exists>h1' h2'. block_loop key bytes i h1 h2 = block_loop key bytes (i + 16) h1' h2'
    \<and> (val64 h1', val64 h2') = ref_block (take 16 (drop i key)) (val64 h1, val64 h2)"
proof -
  have k1: "val64 (read32 key (i + 4), read32 key i) = le64 (take 8 (take 16 (drop i key)))"
    using assms by (simp add: val64_read_block)
  have "val64 (read32 key (i + 8 + 4), read32 key (i + 8)) = le64 (take 8 (drop (i + 8) key))"
    using assms by (intro val64_read_block) simp
  moreover have "take 8 (drop (i + 8) key) = drop 8 (take 16 (drop i key))"
    by (simp add: drop_take add.commute)
  moreover have "i + 8 + 4 = i + 12"
    by simp
  ultimately have k2: "val64 (read32 key (i + 12), read32 key (i + 8))
      = le64 (drop 8 (take 16 (drop i key)))"
    by (simp only:)
  show ?thesis
    apply (subst block_loop.simps)
    apply (simp only: assms(2) if_True Let_def)
    apply (intro exI conjI)
     apply (rule refl)
    apply (simp add: ref_block_def Let_def val64_xor val64_add val64_multiply val64_rotl_27
        val64_rotl_31 val64_rotl_33 val64_consts k1 k2 ref_mix_k1_def ref_mix_k2_def)
    done
qed

lemma block_loop_correct:
  assumes "bytes = i + 16 * n" "length key = bytes + r" "r < 16"
  shows "\<exists>h1' h2'. block_loop key bytes i h1 h2 = (bytes, h1', h2')
    \<and> ref_body (drop i key) (val64 h1, val64 h2) = ((val64 h1', val64 h2'), drop bytes key)"
  using assms(1)
proof (induction n arbitrary: i h1 h2)
  case 0
  then have "\<not> i < bytes" "i = bytes" by simp_all
  moreover have "\<not> 16 \<le> length (drop bytes key)"
    using assms(2,3) by simp
  ultimately show ?case
    by (subst block_loop.simps, subst ref_body.simps) simp
next
  case (Suc n)
  then have lt: "i < bytes" and le: "i + 16 \<le> length key" and next_i: "bytes = (i + 16) + 16 * n"
    using assms(2) by simp_all
  from block_step [OF le lt, of h1 h2]
  obtain a b where step: "block_loop key bytes i h1 h2 = block_loop key bytes (i + 16) a b"
    and blk: "(val64 a, val64 b) = ref_block (take 16 (drop i key)) (val64 h1, val64 h2)"
    by blast
  from Suc.IH [OF next_i, of a b]
  obtain h1' h2' where done_loop: "block_loop key bytes (i + 16) a b = (bytes, h1', h2')"
    and ref: "ref_body (drop (i + 16) key) (val64 a, val64 b)
        = ((val64 h1', val64 h2'), drop bytes key)"
    by blast
  have "16 \<le> length (drop i key)"
    using le by simp
  then have "ref_body (drop i key) (val64 h1, val64 h2)
      = ref_body (drop 16 (drop i key)) (ref_block (take 16 (drop i key)) (val64 h1, val64 h2))"
    by (subst ref_body.simps) simp
  also have "\<dots> = ref_body (drop (i + 16) key) (val64 a, val64 b)"
    by (simp add: blk add.commute)
  finally show ?case
    using step done_loop ref by simp
qed

lemma le64_xor_Cons: "le64 (b # bs) = ucast b XOR push_bit 8 (le64 bs)"
  by (rule bit_word_eqI) (auto simp: bit_simps dest: bit_imp_le_length)

lemma byteAt_cases:
  obtains b :: "8 word" where "byteAt key j = ucast b"
  by (cases "j < length key") (auto simp: byteAt_def intro: that [of 0])

lemma byte_high_bits: "drop_bit 24 (ucast b :: 32 word) = 0" for b :: "8 word"
  by (rule bit_word_eqI) (auto simp: bit_simps dest: bit_imp_le_length)

lemma left_shift_8_fst: "fst (x64LeftShift (a, byteAt key j) 8) = 0"
proof -
  obtain b :: "8 word" where "byteAt key j = ucast b"
    by (rule byteAt_cases)
  then show ?thesis
    by (simp add: x64LeftShift_def js_ushr_def byte_high_bits)
qed

lemma val64_left_shift:
  assumes "0 < k" "k < 64"
  shows "val64 (x64LeftShift (a, b) k) = push_bit k (ucast b)"
  using assms val64_left_shift_low [of k a b] val64_left_shift_high [of k a b]
  by (cases "k < 32") simp_all

lemma shift_into_k2_fields:
  "sh1 (shift_into_k2 key j bits s) = sh1 s"
  "sh2 (shift_into_k2 key j bits s) = sh2 s"
  "sk1 (shift_into_k2 key j bits s) = sk1 s"
  "sval (shift_into_k2 key j bits s) = x64LeftShift (fst (sval s), byteAt key j) bits"
  by (simp_all add: shift_into_k2_def Let_def)

lemma shift_into_k2_val:
  assumes "0 < bits" "bits < 64"
  shows "val64 (sk2 (shift_into_k2 key j bits s))
    = val64 (sk2 s) XOR push_bit bits (ucast (byteAt key j))"
  using assms by (simp add: shift_into_k2_def Let_def val64_xor val64_left_shift)

lemma shift_into_k1_fields:
  "sh1 (shift_into_k1 key j bits s) = sh1 s"
  "sh2 (shift_into_k1 key j bits s) = sh2 s"
  "sk2 (shift_into_k1 key j bits s) = sk2 s"
  "sval (shift_into_k1 key j bits s) = x64LeftShift (fst (sval s), byteAt key j) bits"
  by (simp_all add: shift_into_k1_def Let_def)

lemma shift_into_k1_val:
  assumes "0 < bits" "bits < 64"
  shows "val64 (sk1 (shift_into_k1 key j bits s))
    = val64 (sk1 s) XOR push_bit bits (ucast (byteAt key j))"
  using assms by (simp add: shift_into_k1_def Let_def val64_xor val64_left_shift)

lemma val64_low_only: "val64 (0, b) = ucast b"
  by (simp add: val64_def)

lemma case9_fields:
  "sh1 (case9 key i s) = sh1 s" "sk1 (case9 key i s) = sk1 s"
  "sval (case9 key i s) = (fst (sval s), byteAt key (i + 8))"
  by (simp_all add: case9_def Let_def)

lemma case9_val:
  assumes "fst (sval s) = 0"
  shows "val64 (sh2 (case9 key i s))
    = val64 (sh2 s) XOR ref_mix_k2 (val64 (sk2 s) XOR ucast (byteAt key (i + 8)))"
  using assms
  by (simp add: case9_def Let_def val64_xor val64_multiply val64_rotl_33 val64_consts
      val64_low_only ref_mix_k2_def)

lemma case1_fields:
  "sh2 (case1 key i s) = sh2 s" "sk2 (case1 key i s) = sk2 s"
  by (simp_all add: case1_def Let_def)

lemma case1_val:
  assumes "fst (sval s) = 0"
  shows "val64 (sh1 (case1 key i s))
    = val64 (sh1 s) XOR ref_mix_k1 (val64 (sk1 s) XOR ucast (byteAt key i))"
  using assms
  by (simp add: case1_def Let_def val64_xor val64_multiply val64_rotl_31 val64_consts
      val64_low_only ref_mix_k1_def)

lemma drop_as_list:
  assumes "length key = i + r"
  shows "drop i key = map (\<lambda>j. key ! (i + j)) [0..<r]"
proof -
  have "drop i key = take r (drop i key)" using assms by simp
  also have "\<dots> = map (\<lambda>j. key ! (i + j)) [0..<r]"
    using assms by (intro take_drop_nth) simp
  finally show ?thesis .
qed

lemma fifteen_bytes:
  "map (\<lambda>j. key ! (i + j)) [0..<15]
    = [key ! i, key ! (i + 1), key ! (i + 2), key ! (i + 3), key ! (i + 4), key ! (i + 5),
       key ! (i + 6), key ! (i + 7), key ! (i + 8), key ! (i + 9), key ! (i + 10),
       key ! (i + 11), key ! (i + 12), key ! (i + 13), key ! (i + 14)]"
  by (simp add: upt_rec eval_nat_numeral)

lemma tail_bytes:
  assumes "length key = i + r" "r \<le> 15"
  shows "drop i key
    = take r [key ! i, key ! (i + 1), key ! (i + 2), key ! (i + 3), key ! (i + 4), key ! (i + 5),
       key ! (i + 6), key ! (i + 7), key ! (i + 8), key ! (i + 9), key ! (i + 10),
       key ! (i + 11), key ! (i + 12), key ! (i + 13), key ! (i + 14)]"
proof -
  have "take r (map (\<lambda>j. key ! (i + j)) [0..<15]) = map (\<lambda>j. key ! (i + j)) [0..<r]"
    using assms(2) by (simp add: take_map min_def)
  then show ?thesis
    by (simp only: drop_as_list [OF assms(1)] fifteen_bytes)
qed

lemma left_shift_8_fst_byte: "fst (x64LeftShift (a, ucast b) 8) = 0" for b :: "8 word"
  by (simp add: x64LeftShift_def js_ushr_def byte_high_bits)

lemmas tail_steps = left_shift_8_fst_byte shift_into_k2_fields shift_into_k2_val shift_into_k1_fields
  shift_into_k1_val case9_fields case9_val case1_fields case1_val left_shift_8_fst

lemma remainder_cases:
  fixes r :: nat
  assumes "r < 16"
  obtains "r = 0" | "r = 1" | "r = 2" | "r = 3" | "r = 4" | "r = 5" | "r = 6" | "r = 7"
  | "r = 8" | "r = 9" | "r = 10" | "r = 11" | "r = 12" | "r = 13" | "r = 14" | "r = 15"
proof -
  have "r = 0 \<or> r = 1 \<or> r = 2 \<or> r = 3 \<or> r = 4 \<or> r = 5 \<or> r = 6 \<or> r = 7
      \<or> r = 8 \<or> r = 9 \<or> r = 10 \<or> r = 11 \<or> r = 12 \<or> r = 13 \<or> r = 14 \<or> r = 15"
    using assms by presburger
  then show thesis
    using that by blast
qed

lemma tail_switch_correct:
  assumes "length key = i + r" "r < 16"
  shows "(val64 (sh1 (tail_switch key i r
            \<lparr>sh1 = h1, sh2 = h2, sk1 = (0, 0), sk2 = (0, 0), sval = (0, 0)\<rparr>)),
          val64 (sh2 (tail_switch key i r
            \<lparr>sh1 = h1, sh2 = h2, sk1 = (0, 0), sk2 = (0, 0), sval = (0, 0)\<rparr>)))
    = ref_tail (drop i key) (val64 h1, val64 h2)"
proof -
  have b: "r \<le> 15" using assms(2) by simp
  note bytes = tail_bytes [OF assms(1) b]
  from assms(2) show ?thesis
    using assms(1)
    by (cases rule: remainder_cases)
      (simp_all add: bytes ref_tail_def tail_switch_def Let_def tail_steps
        le64_xor_Cons byteAt_nth ucast_byte_twice val64_consts push_bit_xor push_bit_push_bit
        ac_simps del: le64.simps(2))
qed

section \<open>Hexadecimal digits\<close>

lemma hex_digit_0: "hex_digit 0 = 48"
  by (simp add: hex_digit_def)

lemma fixed_hex_0: "fixed_hex k 0 = replicate k 48"
  by (induction k) (simp_all add: hex_digit_0 replicate_append_same)

lemma toString16_small: "n < 16 \<Longrightarrow> toString16 n = [hex_digit n]"
  by (subst toString16.simps) simp

lemma toString16_large:
  "\<not> n < 16 \<Longrightarrow> toString16 n = toString16 (n div 16) @ [hex_digit (n mod 16)]"
  by (subst toString16.simps) simp

lemma toString16_fixed:
  assumes "0 \<le> n" "n < 16 ^ k" "0 < k"
  shows "toString16 n \<noteq> [] \<and> length (toString16 n) \<le> k
    \<and> fixed_hex k n = replicate (k - length (toString16 n)) 48 @ toString16 n"
  using assms
proof (induction k arbitrary: n)
  case 0
  then show ?case by simp
next
  case (Suc k)
  show ?case
  proof (cases "n < 16")
    case True
    with Suc.prems have "n div 16 = 0" "n mod 16 = n" by simp_all
    with True show ?thesis
      by (simp add: toString16_small fixed_hex_0)
  next
    case False
    then have k: "0 < k"
      using Suc.prems by (cases k) simp_all
    have "0 \<le> n div 16" "n div 16 < 16 ^ k"
      using Suc.prems by simp_all
    from Suc.IH [OF this k]
    have ih: "toString16 (n div 16) \<noteq> []" "length (toString16 (n div 16)) \<le> k"
      "fixed_hex k (n div 16)
        = replicate (k - length (toString16 (n div 16))) 48 @ toString16 (n div 16)"
      by simp_all
    show ?thesis
      using ih by (simp add: toString16_large [OF False])
  qed
qed

lemma hex8_fixed: "hex8 w = fixed_hex 8 (uint w)"
proof -
  have "uint w < 16 ^ 8"
    using uint_bounded [of w] by simp
  from toString16_fixed [OF _ this]
  have t: "toString16 (uint w) \<noteq> []" "length (toString16 (uint w)) \<le> 8"
    "fixed_hex 8 (uint w) = replicate (8 - length (toString16 (uint w))) 48 @ toString16 (uint w)"
    by simp_all
  have "str ''00000000'' = replicate 8 48"
    by (simp add: str_def eval_nat_numeral)
  then have "hex8 w = drop (length (toString16 (uint w))) (replicate 8 48 @ toString16 (uint w))"
    by (simp add: hex8_def slice_last8_def)
  also have "\<dots> = replicate (8 - length (toString16 (uint w))) 48 @ toString16 (uint w)"
    using t(2) by simp
  finally show ?thesis
    using t(3) by simp
qed

lemma fixed_hex_map:
  "0 \<le> n \<Longrightarrow> fixed_hex k n = map (\<lambda>i. hex_digit (n div 16 ^ (k - 1 - i) mod 16)) [0..<k]"
proof (induction k arbitrary: n)
  case 0
  then show ?case by simp
next
  case (Suc k)
  have "n div 16 div 16 ^ (k - 1 - i) = n div 16 ^ (k - i)" if "i < k" for i
  proof -
    from that have "k - i = Suc (k - 1 - i)" by simp
    then show ?thesis
      by (simp add: zdiv_zmult2_eq)
  qed
  then have "map (\<lambda>i. hex_digit (n div 16 div 16 ^ (k - 1 - i) mod 16)) [0..<k]
      = map (\<lambda>i. hex_digit (n div 16 ^ (k - i) mod 16)) [0..<k]"
    by simp
  moreover have "0 \<le> n div 16" using Suc.prems by simp
  ultimately show ?case
    using Suc.IH [of "n div 16"] by simp
qed

lemma and_0xf: "w AND 0xf = take_bit 4 w" for w :: "'a::len word"
  by (simp add: take_bit_eq_mask mask_eq_exp_minus_1)

lemma nibble_uint:
  "uint (drop_bit (4 * j) w AND 0xf) = uint w div 16 ^ j mod 16" for w :: "32 word"
proof -
  have "uint (drop_bit (4 * j) w AND 0xf) = uint (take_bit 4 (drop_bit (4 * j) w))"
    by (simp only: and_0xf)
  also have "\<dots> = take_bit 4 (uint (drop_bit (4 * j) w))"
    by (rule unsigned_take_bit_eq)
  also have "uint (drop_bit (4 * j) w) = drop_bit (4 * j) (uint w)"
  proof -
    have "take_bit 32 (uint w) = uint w"
      using uint_bounded [of w] by (intro take_bit_int_eq_self) simp_all
    then show ?thesis
      by (simp add: unsigned_drop_bit_eq)
  qed
  also have "\<dots> = uint w div 2 ^ (4 * j)"
    by (rule drop_bit_eq_div)
  also have "(2::int) ^ (4 * j) = 16 ^ j"
    by (simp add: power_mult)
  finally show ?thesis
    by (simp add: take_bit_eq_mod)
qed

lemma hex_digit_lower:
  assumes "d < 16"
  shows "hex_digit (int d) = lower_hex_char d"
  using assms
  by (cases rule: remainder_cases) (simp_all add: hex_digit_def lower_hex_char_def str_def)

lemma nibble_less: "unat (w AND 0xf) < 16" for w :: "'a::len word"
proof -
  have "unat (take_bit 4 w) = take_bit 4 (unat w)"
    by (rule unsigned_take_bit_eq)
  moreover have "take_bit 4 (unat w) < 2 ^ 4"
    by (rule take_bit_nat_less_exp)
  ultimately have "unat (take_bit 4 w) < 16"
    by simp
  then show ?thesis
    by (simp only: and_0xf)
qed

lemma hex_digit_nibble: "hex_digit (uint (w AND 0xf)) = lower_hex_char (unat (w AND 0xf))"
  for w :: "'a::len word"
proof -
  have "hex_digit (int (unat (w AND 0xf))) = lower_hex_char (unat (w AND 0xf))"
    by (rule hex_digit_lower [OF nibble_less])
  then show ?thesis
    by (simp only: of_nat_unat)
qed

lemma hex8_hex32: "hex8 w = hex32 w"
proof -
  have "hex_digit (uint w div 16 ^ (8 - 1 - i) mod 16)
      = lower_hex_char (unat (drop_bit (4 * (7 - i)) w AND 0xf))" for i
    using hex_digit_nibble [of "drop_bit (4 * (7 - i)) w"]
    by (simp only: nibble_uint) simp
  then show ?thesis
    by (simp add: hex8_fixed fixed_hex_map hex32_def)
qed

lemma unat_ucast_32_64: "unat (ucast x :: 64 word) = unat x" for x :: "32 word"
proof -
  have "unat x < 2 ^ 32" using unsigned_less [of x, where ?'a = nat] by simp
  then have "take_bit 64 (unat x) = unat x" by (intro take_bit_nat_eq_self) simp
  then show ?thesis by (simp add: unsigned_ucast_eq)
qed

lemma nibble_val64_low:
  assumes "j < 8"
  shows "unat (drop_bit (4 * j) (val64 h) AND 0xf) = unat (drop_bit (4 * j) (snd h) AND 0xf)"
proof -
  have "(take_bit 4 (drop_bit (4 * j) (val64 h)) :: 64 word)
      = ucast (take_bit 4 (drop_bit (4 * j) (snd h)))"
  proof (rule bit_word_eqI)
    fix n
    assume "n < LENGTH(64)"
    show "bit (take_bit 4 (drop_bit (4 * j) (val64 h))) n
        = bit (ucast (take_bit 4 (drop_bit (4 * j) (snd h))) :: 64 word) n"
    proof (cases "n < 4")
      case True
      then have "4 * j + n < 32" using assms by simp
      with True show ?thesis
        by (simp add: bit_simps bit_val64)
    next
      case False
      then show ?thesis by (simp add: bit_simps)
    qed
  qed
  then have "unat (take_bit 4 (drop_bit (4 * j) (val64 h)))
      = unat (ucast (take_bit 4 (drop_bit (4 * j) (snd h))) :: 64 word)"
    by simp
  also have "\<dots> = unat (take_bit 4 (drop_bit (4 * j) (snd h)))"
    by (rule unat_ucast_32_64)
  finally show ?thesis
    by (simp only: and_0xf)
qed

lemma nibble_val64_high:
  assumes "j < 8"
  shows "unat (drop_bit (4 * (8 + j)) (val64 h) AND 0xf) = unat (drop_bit (4 * j) (fst h) AND 0xf)"
proof -
  have "(take_bit 4 (drop_bit (4 * (8 + j)) (val64 h)) :: 64 word)
      = ucast (take_bit 4 (drop_bit (4 * j) (fst h)))"
  proof (rule bit_word_eqI)
    fix n
    assume "n < LENGTH(64)"
    show "bit (take_bit 4 (drop_bit (4 * (8 + j)) (val64 h))) n
        = bit (ucast (take_bit 4 (drop_bit (4 * j) (fst h))) :: 64 word) n"
    proof (cases "n < 4")
      case True
      then have "\<not> 4 * (8 + j) + n < 32" "4 * (8 + j) + n < 64"
        "4 * (8 + j) + n - 32 = 4 * j + n"
        using assms by simp_all
      with True show ?thesis
        by (simp add: bit_simps bit_val64)
    next
      case False
      then show ?thesis by (simp add: bit_simps)
    qed
  qed
  then have "unat (take_bit 4 (drop_bit (4 * (8 + j)) (val64 h)))
      = unat (ucast (take_bit 4 (drop_bit (4 * j) (fst h))) :: 64 word)"
    by simp
  also have "\<dots> = unat (take_bit 4 (drop_bit (4 * j) (fst h)))"
    by (rule unat_ucast_32_64)
  finally show ?thesis
    by (simp only: and_0xf)
qed

lemma hex64_val64: "hex64 (val64 h) = hex32 (fst h) @ hex32 (snd h)"
proof -
  have split: "[0..<16] = [0..<8] @ map (\<lambda>i. 8 + i) [0..<8]"
    by (simp add: upt_rec)
  have hi: "lower_hex_char (unat (drop_bit (4 * (15 - i)) (val64 h) AND 0xf))
      = lower_hex_char (unat (drop_bit (4 * (7 - i)) (fst h) AND 0xf))" if "i < 8" for i
  proof -
    from that have "15 - i = 8 + (7 - i)" "7 - i < 8" by simp_all
    then show ?thesis
      by (simp only: nibble_val64_high)
  qed
  have lo: "lower_hex_char (unat (drop_bit (4 * (15 - (8 + i))) (val64 h) AND 0xf))
      = lower_hex_char (unat (drop_bit (4 * (7 - i)) (snd h) AND 0xf))" if "i < 8" for i
  proof -
    have "15 - (8 + i) = 7 - i" "7 - i < 8" by simp_all
    then show ?thesis
      by (simp only: nibble_val64_low)
  qed
  show ?thesis
    unfolding hex64_def hex32_def split map_append map_map comp_def
    using hi lo by (intro arg_cong2 [where f = append] map_cong refl) simp_all
qed

lemma hex8_pair: "hex8 (fst h) @ hex8 (snd h) = hex64 (val64 h)"
  by (simp add: hex8_hex32 hex64_val64)

lemma length_hex64: "length (hex64 w) = 16"
  by (simp add: hex64_def)

lemma lower_hex_char_is_lower_hex: "d < 16 \<Longrightarrow> is_lower_hex (lower_hex_char d)"
  unfolding is_lower_hex_def lower_hex_char_def by (rule nth_mem) (simp add: str_def)

lemma hex64_lower_hex: "list_all is_lower_hex (hex64 w)"
  by (simp add: hex64_def list_all_iff lower_hex_char_is_lower_hex nibble_less)
section \<open>The bytes \<open>getUTF8Bytes\<close> returns\<close>

lemma ascii_not_surrogate:
  "c \<le> 127 \<Longrightarrow> \<not> is_high_surrogate c \<and> \<not> is_low_surrogate c" for c :: "16 word"
  unfolding is_high_surrogate_def is_low_surrogate_def
  by (auto simp: word_le_nat_alt)

lemma utf8_of_ascii:
  fixes c :: "16 word"
  assumes "c \<le> 127"
  shows "utf8_of_code_point (unat c) = [ucast c]"
proof -
  from assms have "unat c < 0x80" by (simp add: word_le_nat_alt)
  then show ?thesis
    by (simp add: utf8_of_code_point_def)
qed

lemma TextEncoder_encode_ascii:
  "\<forall>c\<in>set input. c \<le> 127 \<Longrightarrow> TextEncoder_encode input = map ucast input"
proof (induction input rule: code_points.induct)
  case 1
  then show ?case by (simp add: TextEncoder_encode_def)
next
  case (2 c)
  then show ?case
    by (simp add: TextEncoder_encode_def ascii_not_surrogate utf8_of_ascii)
next
  case (3 c d cs)
  then have c: "c \<le> 127" and rest: "\<forall>x\<in>set (d # cs). x \<le> 127" by simp_all
  from c have ns: "\<not> is_high_surrogate c" "\<not> is_low_surrogate c"
    by (simp_all add: ascii_not_surrogate)
  have "TextEncoder_encode (d # cs) = map ucast (d # cs)"
    using 3 ns rest by simp
  with c ns show ?case
    by (simp add: TextEncoder_encode_def utf8_of_ascii)
qed

lemma getUTF8Bytes_loop_correct:
  assumes "i \<le> length input" "length result = length input"
    and "\<forall>j<i. input ! j \<le> 127 \<and> result ! j = ucast (input ! j)"
  shows "getUTF8Bytes_loop input i result = TextEncoder_encode input"
  using assms
proof (induction "length input - i" arbitrary: i result)
  case 0
  then have i: "i = length input" by simp
  with 0 have all: "\<forall>c\<in>set input. c \<le> 127"
    by (auto simp: in_set_conv_nth)
  have "result = map ucast input"
    using 0 i by (intro nth_equalityI) simp_all
  moreover have "getUTF8Bytes_loop input i result = result"
    using i by (subst getUTF8Bytes_loop.simps) simp
  ultimately show ?case
    using all by (simp add: TextEncoder_encode_ascii)
next
  case (Suc n)
  then have lt: "i < length input" by simp
  show ?case
  proof (cases "input ! i > 127")
    case True
    with lt show ?thesis
      by (subst getUTF8Bytes_loop.simps) (simp add: Let_def)
  next
    case False
    then have le: "input ! i \<le> 127" by simp
    have step: "getUTF8Bytes_loop input i result
        = getUTF8Bytes_loop input (i + 1) (result[i := ucast (input ! i)])"
      using lt False by (subst getUTF8Bytes_loop.simps) (simp add: Let_def)
    have "getUTF8Bytes_loop input (i + 1) (result[i := ucast (input ! i)])
        = TextEncoder_encode input"
    proof (rule Suc.hyps(1))
      show "n = length input - (i + 1)" using Suc.hyps(2) by simp
      show "i + 1 \<le> length input" using lt by simp
      show "length (result[i := ucast (input ! i)]) = length input"
        using Suc.prems by simp
      show "\<forall>j<i + 1. input ! j \<le> 127
          \<and> result[i := ucast (input ! i)] ! j = ucast (input ! j)"
      proof (intro allI impI)
        fix j
        assume "j < i + 1"
        then consider "j < i" | "j = i" by linarith
        then show "input ! j \<le> 127 \<and> result[i := ucast (input ! i)] ! j = ucast (input ! j)"
        proof cases
          case 1
          with Suc.prems show ?thesis by simp
        next
          case 2
          with le lt Suc.prems show ?thesis by simp
        qed
      qed
    qed
    with step show ?thesis by simp
  qed
qed

lemma getUTF8Bytes_is_TextEncoder: "getUTF8Bytes input = TextEncoder_encode input"
  unfolding getUTF8Bytes_def
  by (rule getUTF8Bytes_loop_correct) simp_all
section \<open>\<open>x64hash128\<close> computes MurmurHash3 x64-128\<close>

lemma x64hash128_refines:
  assumes "length (getUTF8Bytes input) < 2 ^ 32"
  shows "x64hash128 input seed0
    = hex128 (MurmurHash3_x64_128 (getUTF8Bytes input) (case seed0 of None \<Rightarrow> 0 | Some s \<Rightarrow> s))"
proof -
  define key where "key = getUTF8Bytes input"
  define seed where "seed = (case seed0 of None \<Rightarrow> 0 | Some s \<Rightarrow> s)"
  define r where "r = length key mod 16"
  define bytes where "bytes = length key - r"
  have b1: "bytes = 0 + 16 * (length key div 16)"
    unfolding bytes_def r_def by (simp add: minus_mod_eq_mult_div)
  have b2: "length key = bytes + r"
    unfolding bytes_def r_def by simp
  have b3: "r < 16"
    unfolding r_def by simp
  from block_loop_correct [OF b1 b2 b3, of "(0, seed)" "(0, seed)"]
  obtain h1' h2' where bl: "block_loop key bytes 0 (0, seed) (0, seed) = (bytes, h1', h2')"
    and rb: "ref_body key (ucast seed, ucast seed) = ((val64 h1', val64 h2'), drop bytes key)"
    by (auto simp: val64_seed)
  define s where "s = tail_switch key bytes r
      \<lparr>sh1 = h1', sh2 = h2', sk1 = (0, 0), sk2 = (0, 0), sval = (0, 0)\<rparr>"
  have tl: "ref_tail (drop bytes key) (val64 h1', val64 h2') = (val64 (sh1 s), val64 (sh2 s))"
    unfolding s_def by (rule tail_switch_correct [OF b2 b3, symmetric])
  define len :: x64 where "len = (0, word_of_nat (length key))"
  have len: "val64 len = word_of_nat (length key)"
    unfolding len_def using assms by (intro val64_length) (simp add: key_def)
  define a1 where "a1 = x64Xor (sh1 s) len"
  define a2 where "a2 = x64Xor (sh2 s) len"
  define b1 where "b1 = x64Add a1 a2"
  define b2 where "b2 = x64Add a2 b1"
  define c1 where "c1 = x64Fmix b1"
  define c2 where "c2 = x64Fmix b2"
  define d1 where "d1 = x64Add c1 c2"
  define d2 where "d2 = x64Add c2 d1"
  have L: "x64hash128 input seed0 = hex8 (fst d1) @ hex8 (snd d1) @ hex8 (fst d2) @ hex8 (snd d2)"
    unfolding x64hash128_def Let_def
    unfolding key_def [symmetric] seed_def [symmetric] r_def [symmetric] bytes_def [symmetric] bl
    unfolding prod.case s_def [symmetric] len_def [symmetric] a1_def [symmetric] a2_def [symmetric]
      b1_def [symmetric] b2_def [symmetric] c1_def [symmetric] c2_def [symmetric]
      d1_def [symmetric] d2_def [symmetric]
    by (rule refl)
  have R: "MurmurHash3_x64_128 key seed = (val64 d1, val64 d2)"
    unfolding MurmurHash3_x64_128_def rb prod.case tl Let_def
    unfolding d2_def d1_def c2_def c1_def b2_def b1_def a2_def a1_def
    by (simp only: val64_add val64_fmix val64_xor len)
  have "hex128 (MurmurHash3_x64_128 key seed) = hex64 (val64 d1) @ hex64 (val64 d2)"
    by (simp add: R hex128_def)
  also have "\<dots> = (hex8 (fst d1) @ hex8 (snd d1)) @ (hex8 (fst d2) @ hex8 (snd d2))"
    by (simp only: hex8_pair)
  finally show ?thesis
    unfolding key_def [symmetric] seed_def [symmetric] L by simp
qed

lemma x64hash128_lower_hex: "list_all is_lower_hex (x64hash128 input seed)"
proof -
  obtain a b c d where "x64hash128 input seed = hex8 a @ hex8 b @ hex8 c @ hex8 d"
    using x64hash128_shape by blast
  then have "x64hash128 input seed = hex64 (val64 (a, b)) @ hex64 (val64 (c, d))"
    using hex8_pair [of "(a, b)"] hex8_pair [of "(c, d)"] by simp
  then show ?thesis
    by (simp add: hex64_lower_hex)
qed

text \<open>
  The reference on the five bytes of \<open>hello\<close>: the value other implementations of
  MurmurHash3 x64-128 give for it with the seed 0.
\<close>

lemma reference_hello:
  "hex128 (MurmurHash3_x64_128 [0x68, 0x65, 0x6c, 0x6c, 0x6f] 0)
     = str ''cbd8a7b341bd9b025b1e906a48ae1d19''"
  by code_simp

text \<open>
  A string of 14 code units with a letter of two bytes, a surrogate pair, a lone low
  surrogate and a letter of three bytes: 21 bytes, one block and a tail of five.
\<close>

lemma TextEncoder_encode_example:
  "TextEncoder_encode
     [0x61, 0x3A, 0x31, 0x7C, 0x62, 0x3A, 0x22, 0x68, 0xE9, 0xD83D, 0xDE00, 0xDC00, 0x20AC, 0x22]
   = [97, 58, 49, 124, 98, 58, 34, 104, 195, 169, 240, 159, 152, 128, 239, 191, 189, 226, 130,
      172, 34]"
  by (simp add: TextEncoder_encode_def is_high_surrogate_def is_low_surrogate_def
      utf8_of_code_point_def)

lemma reference_example:
  "hex128 (MurmurHash3_x64_128
      [97, 58, 49, 124, 98, 58, 34, 104, 195, 169, 240, 159, 152, 128, 239, 191, 189, 226, 130,
       172, 34] 0)
     = str ''0c4e997843cb402d7df177662099987c''"
  by code_simp

text \<open>
  C1. For every string \<open>input\<close>: \<open>getUTF8Bytes\<close> returns the UTF-8 encoding of the string,
  and \<open>x64hash128\<close> returns 32 characters, each a lowercase hexadecimal digit. When the
  encoding is shorter than \<open>2 ^ 32\<close> bytes, \<open>x64hash128\<close> with no seed (and with the seed 0)
  returns the reference MurmurHash3 x64-128 of the encoding with the seed 0, \<open>h1\<close> then
  \<open>h2\<close>, each as 16 hexadecimal digits, and with a seed \<open>seed\<close> the reference hash with
  that seed. The pairs of 32-bit halves the source names \<open>C1\<close>, \<open>C2\<close>, \<open>M$1\<close>, \<open>N1\<close>,
  \<open>N2\<close>, \<open>F1\<close> and \<open>F2\<close> are the 64-bit constants of the reference.

  The bound is there because the source mixes in the length as a 32-bit value and the
  reference here as a 64-bit one. The reference implementation in C takes the length as an
  \<open>int\<close>, so every length it accepts is below the bound.
\<close>

theorem x64hash128_is_MurmurHash3:
  "getUTF8Bytes input = TextEncoder_encode input
   \<and> length (x64hash128 input seed0) = 32
   \<and> list_all is_lower_hex (x64hash128 input seed0)
   \<and> (length (TextEncoder_encode input) < 2 ^ 32 \<longrightarrow>
        x64hash128 input None = hex128 (MurmurHash3_x64_128 (TextEncoder_encode input) 0)
        \<and> x64hash128 input (Some seed)
            = hex128 (MurmurHash3_x64_128 (TextEncoder_encode input) seed))
   \<and> val64 C1 = 0x87c37b91114253d5
   \<and> val64 C2 = 0x4cf5ad432745937f
   \<and> val64 M1 = 5
   \<and> val64 N1 = 0x52dce729
   \<and> val64 N2 = 0x38495ab5
   \<and> val64 F1 = 0xff51afd7ed558ccd
   \<and> val64 F2 = 0xc4ceb9fe1a85ec53"
proof (intro conjI impI)
  show "getUTF8Bytes input = TextEncoder_encode input"
    by (rule getUTF8Bytes_is_TextEncoder)
  show "length (x64hash128 input seed0) = 32"
    by (rule length_x64hash128)
  show "list_all is_lower_hex (x64hash128 input seed0)"
    by (rule x64hash128_lower_hex)
  show "val64 C1 = 0x87c37b91114253d5" "val64 C2 = 0x4cf5ad432745937f"
    by (simp_all add: val64_consts ref_c1_def ref_c2_def)
  show "val64 M1 = 5" "val64 N1 = 0x52dce729" "val64 N2 = 0x38495ab5"
    "val64 F1 = 0xff51afd7ed558ccd" "val64 F2 = 0xc4ceb9fe1a85ec53"
    by (simp_all only: val64_consts)
next
  assume "length (TextEncoder_encode input) < 2 ^ 32"
  then have small: "length (getUTF8Bytes input) < 2 ^ 32"
    by (simp only: getUTF8Bytes_is_TextEncoder)
  show "x64hash128 input None = hex128 (MurmurHash3_x64_128 (TextEncoder_encode input) 0)"
    using x64hash128_refines [OF small, of None]
    by (simp add: getUTF8Bytes_is_TextEncoder)
  show "x64hash128 input (Some seed)
      = hex128 (MurmurHash3_x64_128 (TextEncoder_encode input) seed)"
    using x64hash128_refines [OF small, of "Some seed"]
    by (simp add: getUTF8Bytes_is_TextEncoder)
qed

text \<open>
  The canonical string of two components, the second a string with letters outside ASCII.
\<close>

theorem x64hash128_is_MurmurHash3_witness:
  "length (TextEncoder_encode
      [0x61, 0x3A, 0x31, 0x7C, 0x62, 0x3A, 0x22, 0x68, 0xE9, 0xD83D, 0xDE00, 0xDC00, 0x20AC, 0x22])
     < 2 ^ 32
   \<and> getUTF8Bytes
      [0x61, 0x3A, 0x31, 0x7C, 0x62, 0x3A, 0x22, 0x68, 0xE9, 0xD83D, 0xDE00, 0xDC00, 0x20AC, 0x22]
     = [97, 58, 49, 124, 98, 58, 34, 104, 195, 169, 240, 159, 152, 128, 239, 191, 189, 226, 130,
        172, 34]
   \<and> x64hash128
      [0x61, 0x3A, 0x31, 0x7C, 0x62, 0x3A, 0x22, 0x68, 0xE9, 0xD83D, 0xDE00, 0xDC00, 0x20AC, 0x22]
      None
     = str ''0c4e997843cb402d7df177662099987c''"
proof -
  let ?input = "[0x61, 0x3A, 0x31, 0x7C, 0x62, 0x3A, 0x22, 0x68, 0xE9, 0xD83D, 0xDE00, 0xDC00,
      0x20AC, 0x22] :: jsstring"
  have small: "length (TextEncoder_encode ?input) < 2 ^ 32"
    by (simp only: TextEncoder_encode_example) simp
  note inst = x64hash128_is_MurmurHash3 [of ?input None 0]
  from inst [THEN conjunct1]
  have bytes: "getUTF8Bytes ?input
      = [97, 58, 49, 124, 98, 58, 34, 104, 195, 169, 240, 159, 152, 128, 239, 191, 189, 226, 130,
         172, 34]"
    by (simp only: TextEncoder_encode_example)
  from inst [THEN conjunct2, THEN conjunct2, THEN conjunct2, THEN conjunct1, THEN mp, OF small,
      THEN conjunct1]
  have hash: "x64hash128 ?input None = str ''0c4e997843cb402d7df177662099987c''"
    by (simp only: TextEncoder_encode_example reference_example)
  from small bytes hash show ?thesis
    by (intro conjI)
qed
section \<open>The canonical string\<close>

lemma record_text_not_Nil: "record_text S p \<noteq> []"
  by (simp add: record_text_def str_def)

lemma join_Cons: "join sep (x # xs) = x @ concat (map (\<lambda>y. sep @ y) xs)"
  by (induction xs arbitrary: x) auto

lemma canonical_loop_nonempty:
  assumes "set ks \<subseteq> fst ` set cs" and "result \<noteq> []"
  shows "canonical_loop S cs ks result =
    Inr (result @ concat (map (\<lambda>k. str ''|'' @ record_text S (k, the (map_of cs k))) ks))"
  using assms
proof (induction ks arbitrary: result)
  case Nil
  then show ?case by simp
next
  case (Cons k ks)
  from Cons.prems obtain c where c: "map_of cs k = Some c"
    by (cases "map_of cs k") (auto simp: map_of_eq_None_iff)
  have "canonical_loop S cs (k # ks) result =
      canonical_loop S cs ks (result @ str ''|'' @ record_text S (k, c))"
    using Cons.prems c by (simp add: record_text_def)
  also have "\<dots> = Inr ((result @ str ''|'' @ record_text S (k, c))
      @ concat (map (\<lambda>k. str ''|'' @ record_text S (k, the (map_of cs k))) ks))"
    using Cons.prems by (intro Cons.IH) auto
  finally show ?case using c by simp
qed

lemma canonical_loop_join:
  assumes "set ks \<subseteq> fst ` set cs"
  shows "canonical_loop S cs ks [] =
    Inr (join (str ''|'') (map (\<lambda>k. record_text S (k, the (map_of cs k))) ks))"
proof (cases ks)
  case Nil
  then show ?thesis by simp
next
  case (Cons k ks')
  from assms Cons obtain c where c: "map_of cs k = Some c"
    by (cases "map_of cs k") (auto simp: map_of_eq_None_iff)
  have sub: "set ks' \<subseteq> fst ` set cs" using assms Cons by auto
  have "canonical_loop S cs (k # ks') [] = canonical_loop S cs ks' (record_text S (k, c))"
    using c by (simp add: record_text_def)
  also have "\<dots> = Inr (record_text S (k, c)
      @ concat (map (\<lambda>k. str ''|'' @ record_text S (k, the (map_of cs k))) ks'))"
    by (rule canonical_loop_nonempty [OF sub record_text_not_Nil])
  finally show ?thesis using Cons c by (simp add: join_Cons comp_def)
qed




lemma canonical_string_eq:
  "componentsToCanonicalString S cs =
    Inr (join (str ''|'') (map (\<lambda>k. record_text S (k, the (map_of cs k))) (sort (Object_keys cs))))"
  unfolding componentsToCanonicalString_def
  by (rule canonical_loop_join) (simp add: Object_keys_def)







lemma hashComponents_total:
  "\<exists>h. hashComponents stringify components = Inr h \<and> length h = 32"
  by (simp add: hashComponents_def canonical_string_eq length_x64hash128)

section \<open>The empty component set\<close>

text \<open>
  C10. For the component set with no component, \<open>componentsToCanonicalString\<close> returns the
  empty string and \<open>hashComponents\<close> returns, without an exception, the reference
  MurmurHash3 x64-128 of the empty byte string with seed 0 in 32 lowercase hexadecimal
  digits, which is 32 zeros.
\<close>

theorem hashComponents_empty:
  "componentsToCanonicalString stringify [] = Inr []
   \<and> hashComponents stringify [] = Inr (hex128 (MurmurHash3_x64_128 (TextEncoder_encode []) 0))
   \<and> hashComponents stringify [] = Inr (str ''00000000000000000000000000000000'')
   \<and> length (str ''00000000000000000000000000000000'') = 32
   \<and> list_all is_lower_hex (str ''00000000000000000000000000000000'')"
proof -
  have canon: "componentsToCanonicalString stringify [] = Inr []"
    by (simp add: componentsToCanonicalString_def Object_keys_def)
  have hash: "hashComponents stringify [] = Inr (str ''00000000000000000000000000000000'')"
    by (simp add: hashComponents_def canon x64hash128_empty)
  have ref: "hashComponents stringify [] = Inr (hex128 (MurmurHash3_x64_128 (TextEncoder_encode []) 0))"
    by (simp only: hash TextEncoder_encode_Nil reference_empty)
  have len: "length (str ''00000000000000000000000000000000'') = 32"
    by (simp add: str_def)
  have hex: "list_all is_lower_hex (str ''00000000000000000000000000000000'')"
    by (simp add: is_lower_hex_def str_def)
  from canon ref hash len hex show ?thesis
    by (intro conjI)
qed

section \<open>Records, order and delimiters of the canonical string\<close>







section \<open>Errors in the canonical string\<close>

lemma component_text_error: "error_opt c \<noteq> None \<Longrightarrow> component_text stringify c = str ''error''"
  by (simp add: component_text_def)

lemma same_outcome_text:
  "same_outcome c c' \<Longrightarrow> component_text stringify c = component_text stringify c'"
  by (auto simp: same_outcome_def component_text_def)

lemma sort_keys_eq:
  assumes "distinct xs" and "distinct ys" and "set xs = set ys"
  shows "sort xs = sort (ys :: jsstring list)"
  by (rule sorted_distinct_set_unique) (simp_all add: assms)

lemma canonical_string_same_outcome:
  assumes "distinct (Object_keys cs)" and "distinct (Object_keys cs')"
    and "set (Object_keys cs) = set (Object_keys cs')"
    and "\<forall>k\<in>set (Object_keys cs). \<forall>c c'.
           map_of cs k = Some c \<longrightarrow> map_of cs' k = Some c' \<longrightarrow> same_outcome c c'"
  shows "componentsToCanonicalString stringify cs = componentsToCanonicalString stringify cs'"
proof -
  have keys: "sort (Object_keys cs) = sort (Object_keys cs')"
    using assms(1-3) by (rule sort_keys_eq)
  have "record_text stringify (k, the (map_of cs k)) = record_text stringify (k, the (map_of cs' k))"
    if "k \<in> set (sort (Object_keys cs))" for k
  proof -
    from that have k: "k \<in> set (Object_keys cs)" by simp
    then obtain c where c: "map_of cs k = Some c"
      by (cases "map_of cs k") (auto simp: map_of_eq_None_iff Object_keys_def)
    from k assms(3) obtain c' where c': "map_of cs' k = Some c'"
      by (cases "map_of cs' k") (auto simp: map_of_eq_None_iff Object_keys_def)
    from assms(4) k c c' have "same_outcome c c'" by blast
    then show ?thesis
      using c c' by (simp add: record_text_def same_outcome_text [of c c'])
  qed
  then have "map (\<lambda>k. record_text stringify (k, the (map_of cs k))) (sort (Object_keys cs))
      = map (\<lambda>k. record_text stringify (k, the (map_of cs' k))) (sort (Object_keys cs))"
    by (intro map_cong refl)
  then have "componentsToCanonicalString stringify cs
      = Inr (join (str ''|'')
          (map (\<lambda>k. record_text stringify (k, the (map_of cs' k))) (sort (Object_keys cs))))"
    by (simp only: canonical_string_eq)
  also have "\<dots> = componentsToCanonicalString stringify cs'"
    by (simp only: canonical_string_eq keys)
  finally show ?thesis .
qed

lemma canonical_example_error:
  "componentsToCanonicalString JSON_stringify
     [(str ''x'', error_component e d), (str ''y'', value_component (JInt 5) d')]
   = Inr (str ''x:error|y:5'')"
  by (simp add: componentsToCanonicalString_def Object_keys_def str_def value_component_def
      error_component_def component_text_def escape_key_def Number_toString_def)

text \<open>
  C4. Two component sets with the same names, errors at the same names and equal values
  elsewhere have the same canonical string and the same identifier, whatever the errors and
  the durations are: a component that holds an error is written as the word \<open>error\<close>. The
  set in which \<open>x\<close> failed and \<open>y\<close> is 5 gives \<open>x:error|y:5\<close>.
\<close>

theorem canonical_string_ignores_errors:
  "(distinct (Object_keys cs) \<and> distinct (Object_keys cs')
      \<and> set (Object_keys cs) = set (Object_keys cs')
      \<and> (\<forall>k\<in>set (Object_keys cs). \<forall>c c'.
            map_of cs k = Some c \<longrightarrow> map_of cs' k = Some c' \<longrightarrow> same_outcome c c')
    \<longrightarrow> componentsToCanonicalString stringify cs = componentsToCanonicalString stringify cs'
        \<and> hashComponents stringify cs = hashComponents stringify cs')
   \<and> (error_opt c \<noteq> None \<longrightarrow> component_text stringify c = str ''error'')
   \<and> componentsToCanonicalString JSON_stringify
        [(str ''x'', error_component e d), (str ''y'', value_component (JInt 5) d')]
      = Inr (str ''x:error|y:5'')"
  using canonical_string_same_outcome [of cs cs' stringify] component_text_error [of c stringify]
    canonical_example_error [of e d d']
  by (simp add: hashComponents_def)

theorem canonical_string_ignores_errors_witness:
  "componentsToCanonicalString JSON_stringify
     [(str ''x'', error_component (str ''TypeError: boom'') 3),
      (str ''y'', value_component (JInt 5) 1)]
   = componentsToCanonicalString JSON_stringify
     [(str ''y'', value_component (JInt 5) 8),
      (str ''x'', error_component (str ''RangeError: other'') 0)]
   \<and> error_opt (error_component (str ''TypeError: boom'') 3 :: (jsvalue, jsstring) component)
     \<noteq> error_opt (error_component (str ''RangeError: other'') 0 :: (jsvalue, jsstring) component)
   \<and> component_text JSON_stringify
       (error_component (str ''TypeError: boom'') 3 :: (jsvalue, jsstring) component) = str ''error''"
proof -
  let ?a = "[(str ''x'', error_component (str ''TypeError: boom'') 3 :: (jsvalue, jsstring) component),
             (str ''y'', value_component (JInt 5) 1)]"
  let ?b = "[(str ''y'', value_component (JInt 5) 8 :: (jsvalue, jsstring) component),
             (str ''x'', error_component (str ''RangeError: other'') 0)]"
  let ?c = "error_component (str ''TypeError: boom'') 3 :: (jsvalue, jsstring) component"
  have 1: "distinct (Object_keys ?a)" and 2: "distinct (Object_keys ?b)"
    and 3: "set (Object_keys ?a) = set (Object_keys ?b)"
    by (auto simp: Object_keys_def str_def)
  have 4: "\<forall>k\<in>set (Object_keys ?a). \<forall>c c'.
      map_of ?a k = Some c \<longrightarrow> map_of ?b k = Some c' \<longrightarrow> same_outcome c c'"
    by (auto simp: Object_keys_def str_def same_outcome_def error_component_def
        value_component_def)
  have 5: "error_opt ?c \<noteq> None"
    by (simp add: error_component_def)
  have 6: "error_opt ?c
      \<noteq> error_opt (error_component (str ''RangeError: other'') 0 :: (jsvalue, jsstring) component)"
    by (simp add: error_component_def str_def)
  note inst = canonical_string_ignores_errors [of ?a ?b JSON_stringify ?c]
  from 1 2 3 4
  have pre: "distinct (Object_keys ?a) \<and> distinct (Object_keys ?b)
      \<and> set (Object_keys ?a) = set (Object_keys ?b)
      \<and> (\<forall>k\<in>set (Object_keys ?a). \<forall>c c'.
            map_of ?a k = Some c \<longrightarrow> map_of ?b k = Some c' \<longrightarrow> same_outcome c c')"
    by (intro conjI)
  from inst [THEN conjunct1, THEN mp, OF pre]
  have 7: "componentsToCanonicalString JSON_stringify ?a = componentsToCanonicalString JSON_stringify ?b"
    by (rule conjunct1)
  from inst [THEN conjunct2, THEN conjunct1, THEN mp, OF 5]
  have 8: "component_text JSON_stringify ?c = str ''error''" .
  from 7 6 8 show ?thesis
    by (intro conjI)
qed

section \<open>The batch scheduler keeps the order\<close>

lemma mapWithBreaks_loop_results:
  assumes "\<forall>j<length items. callback (items ! j) j = Inr (f j)"
    and "length results = length items"
  shows "\<exists>ys. mapWithBreaks_loop items callback interval readings i results t yields0
      = Inr (map (\<lambda>j. if j < i then results ! j else Some (f j)) [0..<length items], ys)"
  using assms
proof (induction items callback interval readings i results t yields0
    rule: mapWithBreaks_loop.induct)
  case (1 items callback interval readings i results t yields0)
  show ?case
  proof (cases "i < length items")
    case False
    then have "map (\<lambda>j. if j < i then results ! j else Some (f j)) [0..<length items] = results"
      using "1.prems" by (intro nth_equalityI) auto
    with False show ?thesis
      by (subst mapWithBreaks_loop.simps) simp
  next
    case True
    let ?rs = "results[i := Some (f i)]"
    have cb: "callback (items ! i) i = Inr (f i)"
      using "1.prems"(1) True by simp
    have len: "length ?rs = length items"
      using "1.prems" by simp
    have eq: "map (\<lambda>j. if j < i + 1 then ?rs ! j else Some (f j)) [0..<length items]
        = map (\<lambda>j. if j < i then results ! j else Some (f j)) [0..<length items]"
      using True "1.prems" by (intro map_cong refl) (auto simp: nth_list_update less_Suc_eq)
    show ?thesis
    proof (cases "readings (i + 1) \<ge> t + interval")
      case yield: True
      from "1.IH"(1) [OF True cb refl refl yield "1.prems"(1) len] eq
      obtain ys where "mapWithBreaks_loop items callback interval readings (i + 1) ?rs
          (readings (i + 1)) (yields0 @ [i])
        = Inr (map (\<lambda>j. if j < i then results ! j else Some (f j)) [0..<length items], ys)"
        by auto
      with True cb yield show ?thesis
        by (subst mapWithBreaks_loop.simps) (simp add: Let_def)
    next
      case no_yield: False
      from "1.IH"(2) [OF True cb refl refl no_yield "1.prems"(1) len] eq
      obtain ys where "mapWithBreaks_loop items callback interval readings (i + 1) ?rs
          t yields0
        = Inr (map (\<lambda>j. if j < i then results ! j else Some (f j)) [0..<length items], ys)"
        by auto
      with True cb no_yield show ?thesis
        by (subst mapWithBreaks_loop.simps) (simp add: Let_def)
    qed
  qed
qed

text \<open>
  C7. When the callback returns a result \<open>f i\<close> for the item at every position \<open>i\<close>,
  \<open>mapWithBreaks\<close> returns the list of the same length that holds \<open>f i\<close> at position
  \<open>i\<close>, whatever the clock reads and wherever the loop yields.
\<close>

theorem mapWithBreaks_in_order:
  "(\<forall>i<length items. callback (items ! i) i = Inr (f i)) \<longrightarrow>
     (\<exists>ys. mapWithBreaks items callback loopReleaseInterval readings
         = Inr (map (\<lambda>i. Some (f i)) [0..<length items], ys))"
proof
  assume a: "\<forall>i<length items. callback (items ! i) i = Inr (f i)"
  have "length (replicate (length items) (None :: 'c option)) = length items"
    by simp
  from mapWithBreaks_loop_results [of items callback f, OF a this,
      of "case loopReleaseInterval of None \<Rightarrow> 16 | Some n \<Rightarrow> n" readings 0 "readings 0" "[]"]
  show "\<exists>ys. mapWithBreaks items callback loopReleaseInterval readings
         = Inr (map (\<lambda>i. Some (f i)) [0..<length items], ys)"
    by (simp add: mapWithBreaks_def)
qed


lemma mapWithBreaks_example_yields:
  "mapWithBreaks [10, 20, 30 :: int] (\<lambda>x i. Inr (x * 2 + int i) :: unit + int) None (\<lambda>k. 20 * int k)
     = Inr ([Some 20, Some 41, Some 62], [0, 1, 2])"
  by (simp add: mapWithBreaks_def)

lemma mapWithBreaks_example_no_yield:
  "mapWithBreaks [10, 20, 30 :: int] (\<lambda>x i. Inr (x * 2 + int i) :: unit + int) (Some 50) (\<lambda>k. 7)
     = Inr ([Some 20, Some 41, Some 62], [])"
  by (simp add: mapWithBreaks_def)

theorem mapWithBreaks_in_order_witness:
  "(\<lambda>x i. Inr (x * 2 + int i) :: unit + int) 10 0 = Inr 20
   \<and> (\<lambda>x i. Inr (x * 2 + int i) :: unit + int) 20 1 = Inr 41
   \<and> (\<lambda>x i. Inr (x * 2 + int i) :: unit + int) 30 2 = Inr 62
   \<and> (\<exists>ys. mapWithBreaks [10, 20, 30 :: int] (\<lambda>x i. Inr (x * 2 + int i) :: unit + int) None
          (\<lambda>k. 20 * int k) = Inr ([Some 20, Some 41, Some 62], ys))"
proof -
  let ?cb = "\<lambda>x i. Inr (x * 2 + int i) :: unit + int"
  have h: "\<forall>i<length [10, 20, 30 :: int]. ?cb ([10, 20, 30] ! i) i = Inr ([10, 20, 30] ! i * 2 + int i)"
    by simp
  have m: "map (\<lambda>i. Some ([10, 20, 30 :: int] ! i * 2 + int i)) [0..<length [10, 20, 30 :: int]]
      = [Some 20, Some 41, Some 62]"
    by (simp add: upt_rec)
  from mapWithBreaks_in_order [of "[10, 20, 30 :: int]" ?cb "\<lambda>i. [10, 20, 30] ! i * 2 + int i"
      None "\<lambda>k. 20 * int k", THEN mp, OF h]
  have "\<exists>ys. mapWithBreaks [10, 20, 30 :: int] ?cb None (\<lambda>k. 20 * int k)
      = Inr ([Some 20, Some 41, Some 62], ys)"
    by (simp only: m)
  then show ?thesis
    by simp
qed

section \<open>The confidence score\<close>

text \<open>
  C8, as stated, fails: in a browser that is neither Android nor WebKit, a component set
  without the \<open>platform\<close> component makes \<open>getConfidence\<close> throw a TypeError.
\<close>

theorem getConfidence_without_platform:
  "getConfidence
     \<lparr>isAndroid = False, isWebKit = False, isDesktopWebKit = False,
      isWebKit616OrNewer = False, isSafariWebKit = False\<rparr>
     (\<lambda>s. s)
     [(str ''vendor'', value_component (str ''Google Inc.'') 0 :: (jsstring, unit) component)]
   = Inl TypeError"
  by (simp add: getConfidence_def getOpenConfidenceScore_def str_def)

text \<open>
  C8, amended. For every component set that has a \<open>platform\<close> component, and for every
  component set on Android and on WebKit, \<open>getConfidence\<close> returns a score that is one of
  0.3, 0.4, 0.5, 0.6 and 0.7, so within \<open>[0, 1]\<close>: 0.4 on Android, 0.3 or 0.5 on WebKit, and
  elsewhere 0.6 for a platform text that starts with \<open>Win\<close>, 0.5 for one that starts with
  \<open>Mac\<close> and 0.7 for any other, also when the platform component holds an error.
\<close>

theorem getConfidence_score:
  "(isAndroid b \<or> isWebKit b \<or> map_of components (str ''platform'') \<noteq> None) \<longrightarrow>
     (\<exists>c. getConfidence b ToString components = Inr c
        \<and> score c \<in> {0.3, 0.4, 0.5, 0.6, 0.7} \<and> 0 \<le> score c \<and> score c \<le> 1
        \<and> (isAndroid b \<longrightarrow> score c = 0.4)
        \<and> (\<not> isAndroid b \<and> isWebKit b \<longrightarrow> score c = 0.3 \<or> score c = 0.5)
        \<and> (\<not> isAndroid b \<and> \<not> isWebKit b \<longrightarrow>
             (\<forall>pc. map_of components (str ''platform'') = Some pc \<longrightarrow>
                score c = (let platform = (case value_opt pc of Some v \<Rightarrow> ToString v | None \<Rightarrow> [])
                           in if starts_with (str ''Win'') platform then 0.6
                              else if starts_with (str ''Mac'') platform then 0.5 else 0.7))))"
  by (auto simp: getConfidence_def getOpenConfidenceScore_def Let_def split: option.splits)

theorem getConfidence_score_witness:
  "map_of [(str ''platform'', value_component (str ''Win32'') 0 :: (jsstring, unit) component)]
       (str ''platform'') \<noteq> None
   \<and> (\<exists>c. getConfidence
          \<lparr>isAndroid = False, isWebKit = False, isDesktopWebKit = False,
           isWebKit616OrNewer = False, isSafariWebKit = False\<rparr>
          (\<lambda>s. s)
          [(str ''platform'', value_component (str ''Win32'') 0 :: (jsstring, unit) component)] = Inr c
        \<and> score c = 0.6)"
proof -
  let ?b = "\<lparr>isAndroid = False, isWebKit = False, isDesktopWebKit = False,
             isWebKit616OrNewer = False, isSafariWebKit = False\<rparr>"
  let ?cs = "[(str ''platform'', value_component (str ''Win32'') 0 :: (jsstring, unit) component)]"
  have p: "map_of ?cs (str ''platform'') \<noteq> None"
    by simp
  then have pre: "isAndroid ?b \<or> isWebKit ?b \<or> map_of ?cs (str ''platform'') \<noteq> None"
    by simp
  from getConfidence_score [of ?b ?cs "\<lambda>s. s", THEN mp, OF pre]
  obtain c where c: "getConfidence ?b (\<lambda>s. s) ?cs = Inr c"
    and s: "\<not> isAndroid ?b \<and> \<not> isWebKit ?b \<longrightarrow>
             (\<forall>pc. map_of ?cs (str ''platform'') = Some pc \<longrightarrow>
                score c = (let platform = (case value_opt pc of Some v \<Rightarrow> v | None \<Rightarrow> [])
                           in if starts_with (str ''Win'') platform then 0.6
                              else if starts_with (str ''Mac'') platform then 0.5 else 0.7))"
    by blast
  from s have "score c = 0.6"
    by (simp add: value_component_def starts_with_def str_def)
  with c p show ?thesis
    by blast
qed

section \<open>The identifier is computed once\<close>

lemma get_visitorId_cached:
  "visitorIdCache r = Some h \<Longrightarrow> get_visitorId stringify r = (Inr h, r)"
  by (simp add: get_visitorId_def)

lemma read_visitorId_cached:
  "visitorIdCache r = Some h \<Longrightarrow> read_visitorId stringify n r = (replicate n (Inr h), r)"
  by (induction n) (simp_all add: get_visitorId_cached)

lemma read_visitorId_fresh:
  assumes "visitorIdCache r = None" and "hashComponents stringify (components_of r) = Inr h"
  shows "read_visitorId stringify (Suc n) r
    = (replicate (Suc n) (Inr h), r\<lparr>visitorIdCache := Some h, hash_runs := hash_runs r + 1\<rparr>)"
proof -
  have "get_visitorId stringify r
      = (Inr h, r\<lparr>visitorIdCache := Some h, hash_runs := hash_runs r + 1\<rparr>)"
    using assms by (simp add: get_visitorId_def)
  moreover have "read_visitorId stringify n (r\<lparr>visitorIdCache := Some h, hash_runs := hash_runs r + 1\<rparr>)
      = (replicate n (Inr h), r\<lparr>visitorIdCache := Some h, hash_runs := hash_runs r + 1\<rparr>)"
    by (rule read_visitorId_cached) simp
  ultimately show ?thesis by simp
qed

text \<open>
  C9. Let \<open>r\<close> be a result that \<open>makeLazyGetResult\<close> built from \<open>components\<close>: its cache is
  empty and no hash has run. Then \<open>hashComponents\<close> of the components is a string \<open>h\<close> of 32
  characters, and

    \<^item> the first read of \<open>visitorId\<close> returns \<open>h\<close> and leaves the object with \<open>h\<close> stored in
      \<open>visitorIdCache\<close> and one run of \<open>hashComponents\<close> counted;

    \<^item> \<open>n\<close> reads in a row, the setter never used, return \<open>n\<close> times \<open>h\<close>, and leave the
      object as the first read left it (as it was when \<open>n = 0\<close>): one run, not \<open>n\<close>;

    \<^item> once \<open>h\<close> is stored, \<open>n\<close> more reads return \<open>n\<close> times \<open>h\<close> and leave the object as
      it is, so no hash runs, even when the property \<open>components\<close> has been given another
      value \<open>components'\<close> in between: the reads return the cache, not a new hash.
\<close>

theorem visitorId_memoized:
  "makeLazyGetResult b ToString components = Inr r \<longrightarrow>
     (\<exists>h. hashComponents stringify components = Inr h
        \<and> length h = 32
        \<and> visitorIdCache r = None
        \<and> components_of r = components
        \<and> hash_runs r = 0
        \<and> get_visitorId stringify r
            = (Inr h, r\<lparr>visitorIdCache := Some h, hash_runs := 1\<rparr>)
        \<and> read_visitorId stringify n r
            = (replicate n (Inr h),
               if n = 0 then r else r\<lparr>visitorIdCache := Some h, hash_runs := 1\<rparr>)
        \<and> read_visitorId stringify n
              (r\<lparr>visitorIdCache := Some h, components_of := components', hash_runs := 1\<rparr>)
            = (replicate n (Inr h),
               r\<lparr>visitorIdCache := Some h, components_of := components', hash_runs := 1\<rparr>))"
proof
  assume m: "makeLazyGetResult b ToString components = Inr r"
  then have r: "visitorIdCache r = None" "components_of r = components" "hash_runs r = 0"
    by (auto simp: makeLazyGetResult_def split: sum.splits)
  obtain h where h: "hashComponents stringify components = Inr h" "length h = 32"
    using hashComponents_total by blast
  have first: "get_visitorId stringify r
      = (Inr h, r\<lparr>visitorIdCache := Some h, hash_runs := 1\<rparr>)"
    using r h by (simp add: get_visitorId_def)
  have row: "read_visitorId stringify n r
      = (replicate n (Inr h),
         if n = 0 then r else r\<lparr>visitorIdCache := Some h, hash_runs := 1\<rparr>)"
  proof (cases n)
    case 0
    then show ?thesis by simp
  next
    case (Suc k)
    have "read_visitorId stringify (Suc k) r
        = (replicate (Suc k) (Inr h), r\<lparr>visitorIdCache := Some h, hash_runs := hash_runs r + 1\<rparr>)"
      using r h by (intro read_visitorId_fresh) simp_all
    with Suc r show ?thesis by simp
  qed
  have later: "read_visitorId stringify n
        (r\<lparr>visitorIdCache := Some h, components_of := components', hash_runs := 1\<rparr>)
      = (replicate n (Inr h),
         r\<lparr>visitorIdCache := Some h, components_of := components', hash_runs := 1\<rparr>)"
    by (rule read_visitorId_cached) simp
  from h r first row later
  show "\<exists>h. hashComponents stringify components = Inr h
        \<and> length h = 32
        \<and> visitorIdCache r = None
        \<and> components_of r = components
        \<and> hash_runs r = 0
        \<and> get_visitorId stringify r
            = (Inr h, r\<lparr>visitorIdCache := Some h, hash_runs := 1\<rparr>)
        \<and> read_visitorId stringify n r
            = (replicate n (Inr h),
               if n = 0 then r else r\<lparr>visitorIdCache := Some h, hash_runs := 1\<rparr>)
        \<and> read_visitorId stringify n
              (r\<lparr>visitorIdCache := Some h, components_of := components', hash_runs := 1\<rparr>)
            = (replicate n (Inr h),
               r\<lparr>visitorIdCache := Some h, components_of := components', hash_runs := 1\<rparr>)"
    by (intro exI [of _ h] conjI)
qed

text \<open>
  On a browser that is neither Android nor WebKit, for the one component \<open>platform\<close> with
  the value \<open>Win32\<close>: three reads, then three more after \<open>components\<close> was emptied.
\<close>

theorem visitorId_memoized_witness:
  "makeLazyGetResult
     \<lparr>isAndroid = False, isWebKit = False, isDesktopWebKit = False,
      isWebKit616OrNewer = False, isSafariWebKit = False\<rparr>
     (\<lambda>s. s)
     [(str ''platform'', \<lparr>value_opt = Some (str ''Win32''), error_opt = None :: unit option,
                           duration = 0\<rparr>)]
   = Inr \<lparr>visitorIdCache = None,
          confidence_of = \<lparr>score = 0.6, comment_score = deriveProConfidenceScore 0.6\<rparr>,
          components_of =
            [(str ''platform'', \<lparr>value_opt = Some (str ''Win32''), error_opt = None,
                                  duration = 0\<rparr>)],
          version_of = version, hash_runs = 0\<rparr>
   \<and> (\<exists>h. hashComponents (\<lambda>s. Some (QuoteJSONString s))
            [(str ''platform'', \<lparr>value_opt = Some (str ''Win32''), error_opt = None :: unit option,
                                  duration = 0\<rparr>)] = Inr h
        \<and> length h = 32
        \<and> read_visitorId (\<lambda>s. Some (QuoteJSONString s)) 3
            \<lparr>visitorIdCache = None,
             confidence_of = \<lparr>score = 0.6, comment_score = deriveProConfidenceScore 0.6\<rparr>,
             components_of =
               [(str ''platform'', \<lparr>value_opt = Some (str ''Win32''),
                                     error_opt = None :: unit option, duration = 0\<rparr>)],
             version_of = version, hash_runs = 0\<rparr>
          = ([Inr h, Inr h, Inr h],
             \<lparr>visitorIdCache = Some h,
              confidence_of = \<lparr>score = 0.6, comment_score = deriveProConfidenceScore 0.6\<rparr>,
              components_of =
                [(str ''platform'', \<lparr>value_opt = Some (str ''Win32''), error_opt = None,
                                      duration = 0\<rparr>)],
              version_of = version, hash_runs = 1\<rparr>)
        \<and> read_visitorId (\<lambda>s. Some (QuoteJSONString s)) 3
            \<lparr>visitorIdCache = Some h,
             confidence_of = \<lparr>score = 0.6, comment_score = deriveProConfidenceScore 0.6\<rparr>,
             components_of = ([] :: (jsstring, unit) components),
             version_of = version, hash_runs = 1\<rparr>
          = ([Inr h, Inr h, Inr h],
             \<lparr>visitorIdCache = Some h,
              confidence_of = \<lparr>score = 0.6, comment_score = deriveProConfidenceScore 0.6\<rparr>,
              components_of = [],
              version_of = version, hash_runs = 1\<rparr>))"
proof -
  let ?b = "\<lparr>isAndroid = False, isWebKit = False, isDesktopWebKit = False,
             isWebKit616OrNewer = False, isSafariWebKit = False\<rparr>"
  let ?cs = "[(str ''platform'', \<lparr>value_opt = Some (str ''Win32''), error_opt = None :: unit option,
                                   duration = 0\<rparr>)]"
  let ?r = "\<lparr>visitorIdCache = None,
           confidence_of = \<lparr>score = 0.6, comment_score = deriveProConfidenceScore 0.6\<rparr>,
           components_of = ?cs, version_of = version, hash_runs = 0\<rparr>"
  let ?q = "\<lambda>s. Some (QuoteJSONString s)"
  have m: "makeLazyGetResult ?b (\<lambda>s. s) ?cs = Inr ?r"
    by (simp add: makeLazyGetResult_def getConfidence_def getOpenConfidenceScore_def
        starts_with_def str_def)
  from visitorId_memoized [of ?b "\<lambda>s. s" ?cs ?r ?q 3 "[]", THEN mp, OF m]
  obtain h where h: "hashComponents ?q ?cs = Inr h" "length h = 32"
    and row: "read_visitorId ?q 3 ?r
      = (replicate 3 (Inr h),
         if (3::nat) = 0 then ?r else ?r\<lparr>visitorIdCache := Some h, hash_runs := 1\<rparr>)"
    and later: "read_visitorId ?q 3 (?r\<lparr>visitorIdCache := Some h, components_of := [], hash_runs := 1\<rparr>)
      = (replicate 3 (Inr h), ?r\<lparr>visitorIdCache := Some h, components_of := [], hash_runs := 1\<rparr>)"
    by blast
  from row have row': "read_visitorId ?q 3 ?r
      = ([Inr h, Inr h, Inr h],
         \<lparr>visitorIdCache = Some h,
          confidence_of = \<lparr>score = 0.6, comment_score = deriveProConfidenceScore 0.6\<rparr>,
          components_of = ?cs, version_of = version, hash_runs = 1\<rparr>)"
    by (simp add: numeral_3_eq_3)
  from later have later': "read_visitorId ?q 3
        \<lparr>visitorIdCache = Some h,
         confidence_of = \<lparr>score = 0.6, comment_score = deriveProConfidenceScore 0.6\<rparr>,
         components_of = ([] :: (jsstring, unit) components), version_of = version, hash_runs = 1\<rparr>
      = ([Inr h, Inr h, Inr h],
         \<lparr>visitorIdCache = Some h,
          confidence_of = \<lparr>score = 0.6, comment_score = deriveProConfidenceScore 0.6\<rparr>,
          components_of = [], version_of = version, hash_runs = 1\<rparr>)"
    by (simp add: numeral_3_eq_3)
  from h row' later' have "\<exists>h. hashComponents ?q ?cs = Inr h
      \<and> length h = 32
      \<and> read_visitorId ?q 3 ?r
          = ([Inr h, Inr h, Inr h],
             \<lparr>visitorIdCache = Some h,
              confidence_of = \<lparr>score = 0.6, comment_score = deriveProConfidenceScore 0.6\<rparr>,
              components_of = ?cs, version_of = version, hash_runs = 1\<rparr>)
      \<and> read_visitorId ?q 3
          \<lparr>visitorIdCache = Some h,
           confidence_of = \<lparr>score = 0.6, comment_score = deriveProConfidenceScore 0.6\<rparr>,
           components_of = ([] :: (jsstring, unit) components), version_of = version, hash_runs = 1\<rparr>
          = ([Inr h, Inr h, Inr h],
             \<lparr>visitorIdCache = Some h,
              confidence_of = \<lparr>score = 0.6, comment_score = deriveProConfidenceScore 0.6\<rparr>,
              components_of = [], version_of = version, hash_runs = 1\<rparr>)"
    by blast
  with m show ?thesis
    by (intro conjI)
qed
section \<open>The source loader\<close>

lemma loadSource_calls: "fst (loadSource source w0) = [SourceCalled w0]"
  by (simp add: loadSource_def Let_def)

lemma loadSource_failed:
  "fails_with (source w0) e w1 \<Longrightarrow>
     snd (loadSource source w0) = Resolved (FinalError e (now w1 - now w0))"
  by (auto simp: fails_with_def loadSource_def awaitIfAsync_def Let_def)

lemma loadSource_final:
  "succeeds_with (source w0) (Final v) w1 \<Longrightarrow>
     snd (loadSource source w0) = Resolved (FinalValue v (now w1 - now w0))"
  by (auto simp: succeeds_with_def loadSource_def awaitIfAsync_def Let_def)

lemma loadSource_get_stage:
  "succeeds_with (source w0) (GetStage get) w1 \<Longrightarrow>
     snd (loadSource source w0) = Resolved (FinalGet get (now w1 - now w0))"
  by (auto simp: succeeds_with_def loadSource_def awaitIfAsync_def Let_def)

lemma loadSource_pending:
  "source w0 = NeverSettles \<Longrightarrow> snd (loadSource source w0) = Pending"
  by (simp add: loadSource_def awaitIfAsync_def Let_def)

lemma completion_cases:
  obtains e w1 where "fails_with c e w1"
  | v w1 where "succeeds_with c v w1"
  | "c = NeverSettles"
  by (cases c) (auto simp: fails_with_def succeeds_with_def)

lemma loadSource_cases:
  obtains e d where "snd (loadSource source w0) = Resolved (FinalError e d)"
  | v d where "snd (loadSource source w0) = Resolved (FinalValue v d)"
  | get w1 where "succeeds_with (source w0) (GetStage get) w1"
      and "snd (loadSource source w0) = Resolved (FinalGet get (now w1 - now w0))"
  | "snd (loadSource source w0) = Pending"
proof (cases "source w0" rule: completion_cases)
  case (1 e w1)
  then show ?thesis by (rule that(1) [OF loadSource_failed])
next
  case (2 v w1)
  show ?thesis
  proof (cases v)
    case (Final x)
    with 2 show ?thesis by (intro that(2) [OF loadSource_final]) simp
  next
    case (GetStage get)
    with 2 have g: "succeeds_with (source w0) (GetStage get) w1" by simp
    show ?thesis by (rule that(3) [OF g loadSource_get_stage [of source w0 get w1, OF g]])
  qed
next
  case 3
  then show ?thesis by (rule that(4) [OF loadSource_pending])
qed

lemma loadSource_never_rejects: "snd (loadSource source w0) \<noteq> RejectedWith e"
  by (cases rule: loadSource_cases [of source w0]) simp_all

lemma finalizeSource_get_failed:
  "fails_with (get w) e w2 \<Longrightarrow>
     finalizeSource (FinalGet get d) w
       = ([GetStageCalled w], Resolved (error_component e (d + now w2 - now w)))"
  by (auto simp: fails_with_def finalizeSource_def awaitIfAsync_def Let_def)

lemma finalizeSource_get_succeeded:
  "succeeds_with (get w) v w2 \<Longrightarrow>
     finalizeSource (FinalGet get d) w
       = ([GetStageCalled w], Resolved (value_component v (d + now w2 - now w)))"
  by (auto simp: succeeds_with_def finalizeSource_def awaitIfAsync_def Let_def)

lemma finalizeSource_get_pending:
  "get w = NeverSettles \<Longrightarrow> finalizeSource (FinalGet get d) w = ([GetStageCalled w], Pending)"
  by (simp add: finalizeSource_def awaitIfAsync_def Let_def)

lemma one_of_value_error_simps:
  "one_of_value_error (error_component e d)" "one_of_value_error (value_component v d)"
  by (simp_all add: one_of_value_error_def error_component_def value_component_def)

lemma finalizeSource_cases:
  obtains c where "snd (finalizeSource f w) = Resolved c" and "one_of_value_error c"
  | "snd (finalizeSource f w) = Pending"
proof (cases f)
  case (FinalError e d)
  then show ?thesis using that(1) [of "error_component e d"]
    by (simp add: finalizeSource_def one_of_value_error_simps)
next
  case (FinalValue v d)
  then show ?thesis using that(1) [of "value_component v d"]
    by (simp add: finalizeSource_def one_of_value_error_simps)
next
  case (FinalGet get d)
  show ?thesis
  proof (cases "get w" rule: completion_cases)
    case (1 e w2)
    then show ?thesis using that(1) FinalGet
      by (simp add: finalizeSource_get_failed one_of_value_error_simps)
  next
    case (2 v w2)
    then show ?thesis using that(1) FinalGet
      by (simp add: finalizeSource_get_succeeded one_of_value_error_simps)
  next
    case 3
    then show ?thesis using that(2) FinalGet
      by (simp add: finalizeSource_get_pending)
  qed
qed

lemma getComponent_cases:
  obtains c where "snd (getComponent (snd (loadSource source w0)) w) = Resolved c"
      and "one_of_value_error c"
  | "snd (getComponent (snd (loadSource source w0)) w) = Pending"
proof (cases "snd (loadSource source w0)")
  case (Resolved f)
  then show ?thesis
    using that by (cases rule: finalizeSource_cases [of f w]) (simp_all add: getComponent_def)
next
  case (RejectedWith e)
  then show ?thesis by (simp add: loadSource_never_rejects)
next
  case Pending
  then show ?thesis using that(2) by (simp add: getComponent_def)
qed

text \<open>
  C5. When the first stage of a source throws or rejects with \<open>e\<close>, the getter's promise
  resolves with the component whose \<open>error\<close> is \<open>e\<close>, that has no \<open>value\<close>, and whose
  \<open>duration\<close> is the clock's reading when the first stage ended less its reading when
  \<open>loadSource\<close> was called. When the first stage loads a second stage and that one throws or
  rejects with \<open>e\<close>, it resolves with the component whose \<open>error\<close> is \<open>e\<close>, that has no
  \<open>value\<close>, and whose \<open>duration\<close> is the first stage's duration plus the clock's reading
  when the second stage ended less its reading when the getter was called. Neither \<open>sourceLoadPromise\<close> nor the getter's promise is ever rejected,
  and a component the getter resolves with has exactly one of \<open>value\<close> and \<open>error\<close>.
\<close>

theorem loadSource_captures_errors:
  "(fails_with (source w0) e w1 \<longrightarrow>
      snd (getComponent (snd (loadSource source w0)) w)
        = Resolved \<lparr>value_opt = None, error_opt = Some e, duration = now w1 - now w0\<rparr>)
   \<and> (succeeds_with (source w0) (GetStage get) w1 \<and> fails_with (get w) e w2 \<longrightarrow>
      snd (getComponent (snd (loadSource source w0)) w)
        = Resolved \<lparr>value_opt = None, error_opt = Some e,
                    duration = now w1 - now w0 + now w2 - now w\<rparr>)
   \<and> snd (loadSource source w0) \<noteq> RejectedWith e'
   \<and> snd (getComponent (snd (loadSource source w0)) w) \<noteq> RejectedWith e'
   \<and> (snd (getComponent (snd (loadSource source w0)) w) = Resolved c \<longrightarrow> one_of_value_error c)"
proof (intro conjI impI)
  assume "fails_with (source w0) e w1"
  then show "snd (getComponent (snd (loadSource source w0)) w)
      = Resolved \<lparr>value_opt = None, error_opt = Some e, duration = now w1 - now w0\<rparr>"
    by (simp add: loadSource_failed getComponent_def finalizeSource_def error_component_def)
next
  assume "succeeds_with (source w0) (GetStage get) w1 \<and> fails_with (get w) e w2"
  then have 1: "snd (loadSource source w0) = Resolved (FinalGet get (now w1 - now w0))"
    and 2: "fails_with (get w) e w2"
    by (simp_all add: loadSource_get_stage)
  show "snd (getComponent (snd (loadSource source w0)) w)
      = Resolved \<lparr>value_opt = None, error_opt = Some e,
                  duration = now w1 - now w0 + now w2 - now w\<rparr>"
    by (simp add: 1 getComponent_def finalizeSource_get_failed [of get w e w2, OF 2]
        error_component_def)
next
  show "snd (loadSource source w0) \<noteq> RejectedWith e'"
    by (rule loadSource_never_rejects)
next
  show "snd (getComponent (snd (loadSource source w0)) w) \<noteq> RejectedWith e'"
    by (cases rule: getComponent_cases [of source w0 w]) simp_all
next
  assume "snd (getComponent (snd (loadSource source w0)) w) = Resolved c"
  then show "one_of_value_error c"
    by (cases rule: getComponent_cases [of source w0 w]) simp_all
qed


theorem loadSource_captures_errors_witness:
  "fails_with ((\<lambda>w. Throws (str ''boom'') \<lparr>now = now w + 5\<rparr>) \<lparr>now = 100\<rparr>
       :: ((nat, jsstring, unit) load_result, jsstring, unit) completion)
     (str ''boom'') \<lparr>now = 105\<rparr>
   \<and> snd (getComponent (snd (loadSource
         (\<lambda>w. Throws (str ''boom'') \<lparr>now = now w + 5\<rparr>
            :: ((nat, jsstring, unit) load_result, jsstring, unit) completion)
         \<lparr>now = 100\<rparr>)) \<lparr>now = 200\<rparr>)
       = Resolved \<lparr>value_opt = None, error_opt = Some (str ''boom''), duration = 5\<rparr>
   \<and> snd (getComponent (snd (loadSource
         (\<lambda>w. Fulfils (GetStage (\<lambda>w'. Rejects (str ''late'') \<lparr>now = now w' + 7\<rparr>))
                  \<lparr>now = now w + 3\<rparr>
            :: ((nat, jsstring, unit) load_result, jsstring, unit) completion)
         \<lparr>now = 100\<rparr>)) \<lparr>now = 200\<rparr>)
       = Resolved \<lparr>value_opt = None, error_opt = Some (str ''late''), duration = 10\<rparr>
   \<and> one_of_value_error
       (\<lparr>value_opt = None, error_opt = Some (str ''late''), duration = 10\<rparr>
          :: (nat, jsstring) component)"
proof -
  let ?s1 = "\<lambda>w. Throws (str ''boom'') \<lparr>now = now w + 5\<rparr>
      :: ((nat, jsstring, unit) load_result, jsstring, unit) completion"
  let ?g = "\<lambda>w'. Rejects (str ''late'') \<lparr>now = now w' + 7\<rparr>
      :: (nat, jsstring, unit) completion"
  let ?s2 = "\<lambda>w. Fulfils (GetStage ?g) \<lparr>now = now w + 3\<rparr>
      :: ((nat, jsstring, unit) load_result, jsstring, unit) completion"
  have f1: "fails_with (?s1 \<lparr>now = 100\<rparr>) (str ''boom'') \<lparr>now = 105\<rparr>"
    by (simp add: fails_with_def)
  from loadSource_captures_errors [of ?s1 "\<lparr>now = 100\<rparr>" "str ''boom''" "\<lparr>now = 105\<rparr>"
      "\<lparr>now = 200\<rparr>", THEN conjunct1, THEN mp, OF f1]
  have r1: "snd (getComponent (snd (loadSource ?s1 \<lparr>now = 100\<rparr>)) \<lparr>now = 200\<rparr>)
      = Resolved \<lparr>value_opt = None, error_opt = Some (str ''boom''), duration = 5\<rparr>"
    by simp
  have f2: "succeeds_with (?s2 \<lparr>now = 100\<rparr>) (GetStage ?g) \<lparr>now = 103\<rparr>
      \<and> fails_with (?g \<lparr>now = 200\<rparr>) (str ''late'') \<lparr>now = 207\<rparr>"
    by (simp add: fails_with_def succeeds_with_def)
  note inst = loadSource_captures_errors [of ?s2 "\<lparr>now = 100\<rparr>" "str ''late''" "\<lparr>now = 103\<rparr>"
      "\<lparr>now = 200\<rparr>" ?g "\<lparr>now = 207\<rparr>" "str ''late''"
      "\<lparr>value_opt = None, error_opt = Some (str ''late''), duration = 10\<rparr>"]
  from inst [THEN conjunct2, THEN conjunct1, THEN mp, OF f2]
  have r2: "snd (getComponent (snd (loadSource ?s2 \<lparr>now = 100\<rparr>)) \<lparr>now = 200\<rparr>)
      = Resolved \<lparr>value_opt = None, error_opt = Some (str ''late''), duration = 10\<rparr>"
    by simp
  from inst [THEN conjunct2, THEN conjunct2, THEN conjunct2, THEN conjunct2, THEN mp, OF r2]
  have r3: "one_of_value_error
      (\<lparr>value_opt = None, error_opt = Some (str ''late''), duration = 10\<rparr>
         :: (nat, jsstring) component)" .
  from f1 r1 r2 r3 show ?thesis
    by (intro conjI)
qed

lemma getComponent_no_source_call:
  "SourceCalled w'' \<notin> set (fst (getComponent p w))"
  by (auto simp: getComponent_def finalizeSource_def Let_def
      split: promise.splits finalizer.splits)

lemma getComponent_one_stage:
  assumes "\<forall>get w1. \<not> succeeds_with (source w0) (GetStage get) w1"
  shows "fst (getComponent (snd (loadSource source w0)) w') = []"
    and "getComponent (snd (loadSource source w0)) w' = getComponent (snd (loadSource source w0)) w"
proof -
  have "fst (getComponent (snd (loadSource source w0)) w') = []
      \<and> getComponent (snd (loadSource source w0)) w' = getComponent (snd (loadSource source w0)) w"
  proof (cases rule: loadSource_cases [of source w0])
    case (1 e d)
    then show ?thesis by (simp add: getComponent_def finalizeSource_def)
  next
    case (2 v d)
    then show ?thesis by (simp add: getComponent_def finalizeSource_def)
  next
    case (3 get w1)
    with assms show ?thesis by simp
  next
    case 4
    then show ?thesis by (simp add: getComponent_def)
  qed
  then show "fst (getComponent (snd (loadSource source w0)) w') = []"
    and "getComponent (snd (loadSource source w0)) w' = getComponent (snd (loadSource source w0)) w"
    by blast+
qed

text \<open>
  C6, as stated, fails for a source with a second stage: every call of the getter calls
  the second stage again, and two calls need not give the same component. Here the second
  stage returns the clock's reading.
\<close>

theorem getComponent_reinvokes_get_stage:
  "fst (getComponent (snd (loadSource
       (\<lambda>w. Returns (GetStage (\<lambda>w'. Returns (now w') w')) w
          :: ((int, unit, unit) load_result, unit, unit) completion) \<lparr>now = 0\<rparr>)) \<lparr>now = 10\<rparr>)
     = [GetStageCalled \<lparr>now = 10\<rparr>]
   \<and> fst (getComponent (snd (loadSource
       (\<lambda>w. Returns (GetStage (\<lambda>w'. Returns (now w') w')) w
          :: ((int, unit, unit) load_result, unit, unit) completion) \<lparr>now = 0\<rparr>)) \<lparr>now = 20\<rparr>)
     = [GetStageCalled \<lparr>now = 20\<rparr>]
   \<and> snd (getComponent (snd (loadSource
       (\<lambda>w. Returns (GetStage (\<lambda>w'. Returns (now w') w')) w
          :: ((int, unit, unit) load_result, unit, unit) completion) \<lparr>now = 0\<rparr>)) \<lparr>now = 10\<rparr>)
     = Resolved \<lparr>value_opt = Some 10, error_opt = None, duration = 0\<rparr>
   \<and> snd (getComponent (snd (loadSource
       (\<lambda>w. Returns (GetStage (\<lambda>w'. Returns (now w') w')) w
          :: ((int, unit, unit) load_result, unit, unit) completion) \<lparr>now = 0\<rparr>)) \<lparr>now = 20\<rparr>)
     = Resolved \<lparr>value_opt = Some 20, error_opt = None, duration = 0\<rparr>
   \<and> snd (getComponent (snd (loadSource
       (\<lambda>w. Returns (GetStage (\<lambda>w'. Returns (now w') w')) w
          :: ((int, unit, unit) load_result, unit, unit) completion) \<lparr>now = 0\<rparr>)) \<lparr>now = 10\<rparr>)
     \<noteq> snd (getComponent (snd (loadSource
       (\<lambda>w. Returns (GetStage (\<lambda>w'. Returns (now w') w')) w
          :: ((int, unit, unit) load_result, unit, unit) completion) \<lparr>now = 0\<rparr>)) \<lparr>now = 20\<rparr>)"
  by (simp add: loadSource_def getComponent_def finalizeSource_def awaitIfAsync_def
      value_component_def)

text \<open>
  C6, amended. \<open>loadSource\<close> calls the source once, and no call of the getter calls it
  again. For a source with no second stage a call of the getter calls nothing and any two
  calls give the same result. For a source with a second stage every call of the getter
  calls the second stage once, and gives the outcome of that call with the duration of the
  first stage added to its own.
\<close>

theorem getComponent_twice:
  "fst (loadSource source w0) = [SourceCalled w0]
   \<and> SourceCalled w'' \<notin> set (fst (getComponent (snd (loadSource source w0)) w))
   \<and> ((\<forall>get w1. \<not> succeeds_with (source w0) (GetStage get) w1) \<longrightarrow>
        fst (getComponent (snd (loadSource source w0)) w') = []
        \<and> getComponent (snd (loadSource source w0)) w'
            = getComponent (snd (loadSource source w0)) w)
   \<and> (succeeds_with (source w0) (GetStage get) w1 \<longrightarrow>
        fst (getComponent (snd (loadSource source w0)) w') = [GetStageCalled w']
        \<and> (succeeds_with (get w') v w2 \<longrightarrow>
             snd (getComponent (snd (loadSource source w0)) w')
               = Resolved \<lparr>value_opt = Some v, error_opt = None,
                   duration = now w1 - now w0 + now w2 - now w'\<rparr>)
        \<and> (fails_with (get w') e w2 \<longrightarrow>
             snd (getComponent (snd (loadSource source w0)) w')
               = Resolved \<lparr>value_opt = None, error_opt = Some e,
                   duration = now w1 - now w0 + now w2 - now w'\<rparr>))"
proof (intro conjI impI)
  show "fst (loadSource source w0) = [SourceCalled w0]"
    by (rule loadSource_calls)
next
  show "SourceCalled w'' \<notin> set (fst (getComponent (snd (loadSource source w0)) w))"
    by (rule getComponent_no_source_call)
next
  assume a: "\<forall>get w1. \<not> succeeds_with (source w0) (GetStage get) w1"
  show "fst (getComponent (snd (loadSource source w0)) w') = []"
    by (rule getComponent_one_stage(1) [of source w0, OF a])
  show "getComponent (snd (loadSource source w0)) w' = getComponent (snd (loadSource source w0)) w"
    by (rule getComponent_one_stage(2) [of source w0, OF a])
next
  assume g: "succeeds_with (source w0) (GetStage get) w1"
  note p = loadSource_get_stage [of source w0 get w1, OF g]
  show "fst (getComponent (snd (loadSource source w0)) w') = [GetStageCalled w']"
    by (simp add: p getComponent_def finalizeSource_def Let_def)
  {
    assume s: "succeeds_with (get w') v w2"
    show "snd (getComponent (snd (loadSource source w0)) w')
        = Resolved \<lparr>value_opt = Some v, error_opt = None,
                   duration = now w1 - now w0 + now w2 - now w'\<rparr>"
      by (simp add: p getComponent_def finalizeSource_get_succeeded [of get w' v w2, OF s]
          value_component_def)
  }
  {
    assume f: "fails_with (get w') e w2"
    show "snd (getComponent (snd (loadSource source w0)) w')
        = Resolved \<lparr>value_opt = None, error_opt = Some e,
                   duration = now w1 - now w0 + now w2 - now w'\<rparr>"
      by (simp add: p getComponent_def finalizeSource_get_failed [of get w' e w2, OF f]
          error_component_def)
  }
qed


theorem getComponent_twice_witness:
  "fst (getComponent (snd (loadSource
       (\<lambda>w. Returns (Final 42) \<lparr>now = now w + 2\<rparr>
          :: ((int, unit, unit) load_result, unit, unit) completion) \<lparr>now = 0\<rparr>)) \<lparr>now = 20\<rparr>) = []
   \<and> getComponent (snd (loadSource
       (\<lambda>w. Returns (Final 42) \<lparr>now = now w + 2\<rparr>
          :: ((int, unit, unit) load_result, unit, unit) completion) \<lparr>now = 0\<rparr>)) \<lparr>now = 20\<rparr>
     = getComponent (snd (loadSource
       (\<lambda>w. Returns (Final 42) \<lparr>now = now w + 2\<rparr>
          :: ((int, unit, unit) load_result, unit, unit) completion) \<lparr>now = 0\<rparr>)) \<lparr>now = 10\<rparr>
   \<and> fst (getComponent (snd (loadSource
       (\<lambda>w. Returns (GetStage (\<lambda>w'. Returns (now w') w')) \<lparr>now = now w + 2\<rparr>
          :: ((int, unit, unit) load_result, unit, unit) completion) \<lparr>now = 0\<rparr>)) \<lparr>now = 20\<rparr>)
     = [GetStageCalled \<lparr>now = 20\<rparr>]
   \<and> snd (getComponent (snd (loadSource
       (\<lambda>w. Returns (GetStage (\<lambda>w'. Returns (now w') w')) \<lparr>now = now w + 2\<rparr>
          :: ((int, unit, unit) load_result, unit, unit) completion) \<lparr>now = 0\<rparr>)) \<lparr>now = 20\<rparr>)
     = Resolved \<lparr>value_opt = Some 20, error_opt = None, duration = 2\<rparr>"
proof -
  let ?one = "\<lambda>w. Returns (Final 42) \<lparr>now = now w + 2\<rparr>
      :: ((int, unit, unit) load_result, unit, unit) completion"
  let ?get = "\<lambda>w'. Returns (now w') w' :: (int, unit, unit) completion"
  let ?two = "\<lambda>w. Returns (GetStage ?get) \<lparr>now = now w + 2\<rparr>
      :: ((int, unit, unit) load_result, unit, unit) completion"
  have h1: "\<forall>get w1. \<not> succeeds_with (?one \<lparr>now = 0\<rparr>) (GetStage get) w1"
    by (simp add: succeeds_with_def)
  note one = getComponent_twice [of ?one "\<lparr>now = 0\<rparr>" "\<lparr>now = 0\<rparr>" "\<lparr>now = 10\<rparr>" "\<lparr>now = 20\<rparr>",
      THEN conjunct2, THEN conjunct2, THEN conjunct1, THEN mp, OF h1]
  have h2: "succeeds_with (?two \<lparr>now = 0\<rparr>) (GetStage ?get) \<lparr>now = 2\<rparr>"
    by (simp add: succeeds_with_def)
  note two = getComponent_twice [of ?two "\<lparr>now = 0\<rparr>" "\<lparr>now = 0\<rparr>" "\<lparr>now = 10\<rparr>" "\<lparr>now = 20\<rparr>"
      ?get "\<lparr>now = 2\<rparr>" 20 "\<lparr>now = 20\<rparr>",
      THEN conjunct2, THEN conjunct2, THEN conjunct2, THEN mp, OF h2]
  have h3: "succeeds_with (?get \<lparr>now = 20\<rparr>) 20 \<lparr>now = 20\<rparr>"
    by (simp add: succeeds_with_def)
  from two [THEN conjunct2, THEN conjunct1, THEN mp, OF h3]
  have v: "snd (getComponent (snd (loadSource ?two \<lparr>now = 0\<rparr>)) \<lparr>now = 20\<rparr>)
      = Resolved \<lparr>value_opt = Some 20, error_opt = None, duration = 2\<rparr>"
    by simp
  from one [THEN conjunct1] one [THEN conjunct2] two [THEN conjunct1] v
  show ?thesis
    by (intro conjI)
qed

end
